theory Spec2Isabelle
  imports Main "HOL-Library.Monad_Syntax"
begin

section \<open>Memory model\<close>

text \<open>
  The deque keeps four element pointers into one heap buffer. A pointer is a block number
  and an element offset inside that block. Block \<open>0\<close> is never
  allocated and \<open>Ptr 0 0\<close> is the null pointer, so that pointer arithmetic and pointer
  comparison are the machine's: addition moves the offset, and pointers are ordered as
  addresses (the null pointer below every object; inside one block by offset; blocks by
  their number, which no statement below depends on).
\<close>

datatype ptr = Ptr (block: nat) (offset: int)

definition NULL :: ptr where
  "NULL = Ptr 0 0"

definition ptr_add :: "ptr \<Rightarrow> int \<Rightarrow> ptr" where
  "ptr_add p k = Ptr (block p) (offset p + k)"

definition ptr_diff :: "ptr \<Rightarrow> ptr \<Rightarrow> int" where
  "ptr_diff p r = offset p - offset r"

definition ptr_less :: "ptr \<Rightarrow> ptr \<Rightarrow> bool" where
  "ptr_less p r = (block p < block r \<or> (block p = block r \<and> offset p < offset r))"

definition ptr_ge :: "ptr \<Rightarrow> ptr \<Rightarrow> bool" where
  "ptr_ge p r = (\<not> ptr_less p r)"

text \<open>
  The heap is the list of the blocks allocated so far: block \<open>b\<close> (from 1) is entry
  \<open>b - 1\<close>, \<open>None\<close> once it has been freed. A block is the list of its elements.
\<close>

type_synonym 'a heap = "'a list option list"

definition mem :: "'a heap \<Rightarrow> nat \<Rightarrow> 'a list option" where
  "mem h b = (if b = 0 \<or> length h < b then None else h ! (b - 1))"

definition set_block :: "'a heap \<Rightarrow> nat \<Rightarrow> 'a list option \<Rightarrow> 'a heap" where
  "set_block h b v = h[b - 1 := v]"

text \<open>Reading and writing one element; \<open>None\<close> is an access outside every live block.\<close>

definition load :: "'a heap \<Rightarrow> ptr \<Rightarrow> 'a option" where
  "load h p =
     (case mem h (block p) of
        None \<Rightarrow> None
      | Some buf \<Rightarrow>
          if 0 \<le> offset p \<and> offset p < int (length buf)
          then Some (buf ! nat (offset p)) else None)"

definition store :: "'a heap \<Rightarrow> ptr \<Rightarrow> 'a \<Rightarrow> 'a heap option" where
  "store h p v =
     (case mem h (block p) of
        None \<Rightarrow> None
      | Some buf \<Rightarrow>
          if 0 \<le> offset p \<and> offset p < int (length buf)
          then Some (set_block h (block p) (Some (buf[nat (offset p) := v])))
          else None)"

definition load_range :: "'a heap \<Rightarrow> ptr \<Rightarrow> nat \<Rightarrow> 'a list option" where
  "load_range h p n =
     (case mem h (block p) of
        None \<Rightarrow> None
      | Some buf \<Rightarrow>
          if 0 \<le> offset p \<and> nat (offset p) + n \<le> length buf
          then Some (take n (drop (nat (offset p)) buf)) else None)"

definition store_range :: "'a heap \<Rightarrow> ptr \<Rightarrow> 'a list \<Rightarrow> 'a heap option" where
  "store_range h p vs =
     (case mem h (block p) of
        None \<Rightarrow> None
      | Some buf \<Rightarrow>
          if 0 \<le> offset p \<and> nat (offset p) + length vs \<le> length buf
          then Some (set_block h (block p)
                 (Some (take (nat (offset p)) buf @ vs @
                        drop (nat (offset p) + length vs) buf)))
          else None)"

text \<open>
  \<^verbatim>\<open>memcpy(dst, src, n * sizeof(BASE))\<close>, counted in elements. A negative count is a huge
  \<^verbatim>\<open>size_t\<close> and leaves every block.
\<close>

definition memcpy :: "'a heap \<Rightarrow> ptr \<Rightarrow> ptr \<Rightarrow> int \<Rightarrow> 'a heap option" where
  "memcpy h dst src n =
     (if n < 0 then None
      else do { vs \<leftarrow> load_range h src (nat n); store_range h dst vs })"

text \<open>
  Modelled from the spec: \<^verbatim>\<open>igraph_Calloc\<close> and \<^verbatim>\<open>igraph_Free\<close> are macros of
  \<^verbatim>\<open>igraph_memory.h\<close>, which is not among the sources; the spec only says that an
  allocation either fails or yields fresh storage. They are \<^verbatim>\<open>calloc\<close> and \<^verbatim>\<open>free\<close>:
  whether the allocation succeeds is the parameter \<open>ok\<close>; a successful one returns the
  start of a new zero-filled block, a failed one the null pointer. Sizes and offsets are
  unbounded integers: a request that does not fit \<^verbatim>\<open>size_t\<close> is one of those that fail,
  and a buffer so large that \<^verbatim>\<open>2 * capacity + 1\<close> leaves the range of \<^verbatim>\<open>long\<close> does not
  fit an address space.
\<close>

definition igraph_Calloc :: "bool \<Rightarrow> int \<Rightarrow> 'a::zero heap \<Rightarrow> ptr \<times> 'a heap" where
  "igraph_Calloc ok n h =
     (if ok \<and> 0 \<le> n
      then (Ptr (Suc (length h)) 0, h @ [Some (replicate (nat n) 0)])
      else (NULL, h))"

definition igraph_Free :: "'a heap \<Rightarrow> ptr \<Rightarrow> 'a heap option" where
  "igraph_Free h p =
     (if p = NULL then Some h
      else if offset p = 0 \<and> mem h (block p) \<noteq> None
      then Some (set_block h (block p) None)
      else None)"

section \<open>The deque\<close>

text \<open>
  The four pointer fields the functions use: \<^verbatim>\<open>begin\<close>, \<^verbatim>\<open>end\<close>, \<^verbatim>\<open>stor_begin\<close> and
  \<^verbatim>\<open>stor_end\<close>. The first two are renamed, \<open>begin\<close> and \<open>end\<close> being reserved words
  here. The element type \<^verbatim>\<open>BASE\<close> is any type with a zero, the heap's type parameter.
\<close>

record dqueue =
  begin_ptr :: ptr
  end_ptr :: ptr
  stor_begin :: ptr
  stor_end :: ptr

text \<open>
  Modelled from the spec: the error codes of \<^verbatim>\<open>igraph_error.h\<close>, which is not among the
  sources. \<^verbatim>\<open>IGRAPH_ERROR(msg, IGRAPH_ENOMEM)\<close> reports the error and returns the code
  (the spec's OutOfMemory); success is the return value 0.
\<close>

datatype retcode = IGRAPH_SUCCESS | IGRAPH_ENOMEM

text \<open>
  Every function takes the deque and the heap and returns what it changes. A failed
  \<^verbatim>\<open>assert\<close> and an access outside a live block are the result \<open>None\<close>. The assertion
  \<^verbatim>\<open>q != 0\<close> always holds here, the deque being passed by value.
\<close>

definition igraph_dqueue_init ::
  "bool \<Rightarrow> dqueue \<Rightarrow> int \<Rightarrow> 'a::zero heap \<Rightarrow> retcode \<times> dqueue \<times> 'a heap" where
  "igraph_dqueue_init ok q sz h =
     (let sz = (if sz \<le> 0 then 1 else sz);
          (p, h) = igraph_Calloc ok sz h;
          q = q\<lparr>stor_begin := p\<rparr>
      in if stor_begin q = NULL then (IGRAPH_ENOMEM, q, h)
         else
           let q = q\<lparr>stor_end := ptr_add (stor_begin q) sz\<rparr>;
               q = q\<lparr>begin_ptr := stor_begin q\<rparr>;
               q = q\<lparr>end_ptr := NULL\<rparr>
           in (IGRAPH_SUCCESS, q, h))"

definition igraph_dqueue_destroy :: "dqueue \<Rightarrow> 'a heap \<Rightarrow> (dqueue \<times> 'a heap) option" where
  "igraph_dqueue_destroy q h =
     (if stor_begin q \<noteq> NULL
      then do { h \<leftarrow> igraph_Free h (stor_begin q); Some (q\<lparr>stor_begin := NULL\<rparr>, h) }
      else Some (q, h))"

definition igraph_dqueue_empty :: "dqueue \<Rightarrow> bool option" where
  "igraph_dqueue_empty q =
     (if stor_begin q = NULL then None else Some (end_ptr q = NULL))"

definition igraph_dqueue_clear :: "dqueue \<Rightarrow> dqueue option" where
  "igraph_dqueue_clear q =
     (if stor_begin q = NULL then None
      else Some (q\<lparr>begin_ptr := stor_begin q, end_ptr := NULL\<rparr>))"

definition igraph_dqueue_full :: "dqueue \<Rightarrow> bool option" where
  "igraph_dqueue_full q =
     (if stor_begin q = NULL then None else Some (begin_ptr q = end_ptr q))"

definition igraph_dqueue_size :: "dqueue \<Rightarrow> int option" where
  "igraph_dqueue_size q =
     (if stor_begin q = NULL then None
      else if end_ptr q = NULL then Some 0
      else if ptr_less (begin_ptr q) (end_ptr q)
      then Some (ptr_diff (end_ptr q) (begin_ptr q))
      else Some (ptr_diff (stor_end q) (begin_ptr q)
                 + ptr_diff (end_ptr q) (stor_begin q)))"

definition igraph_dqueue_head :: "dqueue \<Rightarrow> 'a heap \<Rightarrow> 'a option" where
  "igraph_dqueue_head q h =
     (if stor_begin q = NULL then None else load h (begin_ptr q))"

definition igraph_dqueue_back :: "dqueue \<Rightarrow> 'a heap \<Rightarrow> 'a option" where
  "igraph_dqueue_back q h =
     (if stor_begin q = NULL then None
      else if end_ptr q = stor_begin q then load h (ptr_add (stor_end q) (- 1))
      else load h (ptr_add (end_ptr q) (- 1)))"

definition igraph_dqueue_pop :: "dqueue \<Rightarrow> 'a heap \<Rightarrow> ('a \<times> dqueue) option" where
  "igraph_dqueue_pop q h =
     do {
       tmp \<leftarrow> load h (begin_ptr q);
       if stor_begin q = NULL then None
       else
         let q = q\<lparr>begin_ptr := ptr_add (begin_ptr q) 1\<rparr>;
             q = (if begin_ptr q = stor_end q then q\<lparr>begin_ptr := stor_begin q\<rparr> else q);
             q = (if begin_ptr q = end_ptr q then q\<lparr>end_ptr := NULL\<rparr> else q)
         in Some (tmp, q)
     }"

definition igraph_dqueue_pop_back :: "dqueue \<Rightarrow> 'a heap \<Rightarrow> ('a \<times> dqueue) option" where
  "igraph_dqueue_pop_back q h =
     (if stor_begin q = NULL then None
      else
        do {
          (tmp, q) \<leftarrow>
            (if end_ptr q \<noteq> stor_begin q
             then do { tmp \<leftarrow> load h (ptr_add (end_ptr q) (- 1));
                       Some (tmp, q\<lparr>end_ptr := ptr_add (end_ptr q) (- 1)\<rparr>) }
             else do { tmp \<leftarrow> load h (ptr_add (stor_end q) (- 1));
                       Some (tmp, q\<lparr>end_ptr := ptr_add (stor_end q) (- 1)\<rparr>) });
          let q = (if begin_ptr q = end_ptr q then q\<lparr>end_ptr := NULL\<rparr> else q);
          Some (tmp, q)
        })"

text \<open>
  The last three statements of both branches of \<^verbatim>\<open>igraph_dqueue_push\<close>: write the element
  at \<open>end\<close>, advance \<open>end\<close>, wrap it at the end of the storage.
\<close>

definition put_at_end :: "dqueue \<Rightarrow> 'a \<Rightarrow> 'a heap \<Rightarrow> (dqueue \<times> 'a heap) option" where
  "put_at_end q elem h =
     do {
       h \<leftarrow> store h (end_ptr q) elem;
       let q = q\<lparr>end_ptr := ptr_add (end_ptr q) 1\<rparr>;
       let q = (if end_ptr q = stor_end q then q\<lparr>end_ptr := stor_begin q\<rparr> else q);
       Some (q, h)
     }"

definition igraph_dqueue_push ::
  "bool \<Rightarrow> dqueue \<Rightarrow> 'a \<Rightarrow> 'a::zero heap \<Rightarrow> (retcode \<times> dqueue \<times> 'a heap) option" where
  "igraph_dqueue_push ok q elem h =
     (if stor_begin q = NULL then None
      else if begin_ptr q \<noteq> end_ptr q then
        do {
          let q = (if end_ptr q = NULL then q\<lparr>end_ptr := begin_ptr q\<rparr> else q);
          (q, h) \<leftarrow> put_at_end q elem h;
          Some (IGRAPH_SUCCESS, q, h)
        }
      else
        (let old = stor_begin q;
             (bigger, h) =
               igraph_Calloc ok (2 * ptr_diff (stor_end q) (stor_begin q) + 1) h
         in if bigger = NULL then Some (IGRAPH_ENOMEM, q, h)
            else
              do {
                h \<leftarrow> (if ptr_diff (stor_end q) (begin_ptr q) \<noteq> 0
                      then memcpy h bigger (begin_ptr q)
                             (ptr_diff (stor_end q) (begin_ptr q))
                      else Some h);
                h \<leftarrow> (if ptr_diff (end_ptr q) (stor_begin q) > 0
                      then memcpy h (ptr_add bigger (ptr_diff (stor_end q) (begin_ptr q)))
                             (stor_begin q) (ptr_diff (end_ptr q) (stor_begin q))
                      else Some h);
                let q = q\<lparr>end_ptr := ptr_add bigger (ptr_diff (stor_end q) (stor_begin q))\<rparr>;
                let q = q\<lparr>stor_end :=
                           ptr_add bigger (2 * ptr_diff (stor_end q) (stor_begin q) + 1)\<rparr>;
                let q = q\<lparr>stor_begin := bigger\<rparr>;
                let q = q\<lparr>begin_ptr := bigger\<rparr>;
                (q, h) \<leftarrow> put_at_end q elem h;
                h \<leftarrow> igraph_Free h old;
                Some (IGRAPH_SUCCESS, q, h)
              }))"

definition igraph_dqueue_e :: "dqueue \<Rightarrow> 'a::zero heap \<Rightarrow> int \<Rightarrow> 'a option" where
  "igraph_dqueue_e q h idx =
     (if ptr_less (ptr_add (begin_ptr q) idx) (end_ptr q) \<or>
         (ptr_ge (begin_ptr q) (end_ptr q) \<and>
          ptr_less (ptr_add (begin_ptr q) idx) (stor_end q))
      then load h (ptr_add (begin_ptr q) idx)
      else if ptr_ge (begin_ptr q) (end_ptr q) \<and>
              ptr_less (ptr_add (stor_begin q) idx) (end_ptr q)
      then (let idx = idx - ptr_diff (stor_end q) (begin_ptr q)
            in load h (ptr_add (stor_begin q) idx))
      else Some 0)"

section \<open>Running several operations\<close>

text \<open>
  A deque before \<^verbatim>\<open>igraph_dqueue_init\<close>: the C structure is uninitialised there, and
  nothing below depends on what it holds.
\<close>

definition dq_uninit :: dqueue where
  "dq_uninit = \<lparr>begin_ptr = NULL, end_ptr = NULL, stor_begin = NULL, stor_end = NULL\<rparr>"

text \<open>
  A sequence of pushes, each element paired with the outcome of the allocation its push
  may attempt; \<open>None\<close> when a push does not return success.
\<close>

fun push_all ::
  "dqueue \<Rightarrow> (bool \<times> 'a) list \<Rightarrow> 'a::zero heap \<Rightarrow> (dqueue \<times> 'a heap) option" where
  "push_all q [] h = Some (q, h)"
| "push_all q ((ok, e) # es) h =
     (case igraph_dqueue_push ok q e h of
        Some (IGRAPH_SUCCESS, q', h') \<Rightarrow> push_all q' es h'
      | _ \<Rightarrow> None)"

text \<open>\<open>n\<close> calls of \<^verbatim>\<open>igraph_dqueue_pop\<close>, of \<^verbatim>\<open>igraph_dqueue_pop_back\<close>, and what they return.\<close>

fun pop_n :: "nat \<Rightarrow> dqueue \<Rightarrow> 'a heap \<Rightarrow> ('a list \<times> dqueue) option" where
  "pop_n 0 q h = Some ([], q)"
| "pop_n (Suc n) q h =
     do { (x, q) \<leftarrow> igraph_dqueue_pop q h; (xs, q) \<leftarrow> pop_n n q h; Some (x # xs, q) }"

fun pop_back_n :: "nat \<Rightarrow> dqueue \<Rightarrow> 'a heap \<Rightarrow> ('a list \<times> dqueue) option" where
  "pop_back_n 0 q h = Some ([], q)"
| "pop_back_n (Suc n) q h =
     do { (x, q) \<leftarrow> igraph_dqueue_pop_back q h;
          (xs, q) \<leftarrow> pop_back_n n q h;
          Some (x # xs, q) }"

section \<open>Valid states and their contents\<close>

text \<open>The number of slots, \<^verbatim>\<open>q->stor_end - q->stor_begin\<close>.\<close>

definition capacity :: "dqueue \<Rightarrow> int" where
  "capacity q = ptr_diff (stor_end q) (stor_begin q)"

text \<open>
  The states the operations keep to: the storage is a live, non-empty block, \<open>stor_begin\<close>
  its start, \<open>stor_end\<close> one past its last slot, \<open>begin\<close> a slot of it, and \<open>end\<close>
  either null (the empty deque) or a slot of it. Every state reached from
  \<^verbatim>\<open>igraph_dqueue_init\<close> by the operations, within their preconditions, is of this kind.
\<close>

definition dq_valid :: "'a heap \<Rightarrow> dqueue \<Rightarrow> bool" where
  "dq_valid h q =
     (case mem h (block (stor_begin q)) of
        None \<Rightarrow> False
      | Some buf \<Rightarrow>
          offset (stor_begin q) = 0 \<and> buf \<noteq> [] \<and>
          stor_end q = Ptr (block (stor_begin q)) (int (length buf)) \<and>
          block (begin_ptr q) = block (stor_begin q) \<and>
          0 \<le> offset (begin_ptr q) \<and> offset (begin_ptr q) < int (length buf) \<and>
          (end_ptr q = NULL \<or>
           block (end_ptr q) = block (stor_begin q) \<and>
           0 \<le> offset (end_ptr q) \<and> offset (end_ptr q) < int (length buf)))"

text \<open>
  The slots from \<open>i\<close> up to \<open>j\<close>, read around the end of the buffer; all of them when
  \<open>i = j\<close>.
\<close>

definition ring :: "'a list \<Rightarrow> nat \<Rightarrow> nat \<Rightarrow> 'a list" where
  "ring buf i j = (if i < j then take (j - i) (drop i buf) else drop i buf @ take j buf)"

text \<open>The live elements of a deque, head first.\<close>

definition dq_list :: "'a heap \<Rightarrow> dqueue \<Rightarrow> 'a list" where
  "dq_list h q =
     (case mem h (block (stor_begin q)) of
        None \<Rightarrow> []
      | Some buf \<Rightarrow>
          if end_ptr q = NULL then []
          else ring buf (nat (offset (begin_ptr q))) (nat (offset (end_ptr q))))"

text \<open>
  What the two \<^verbatim>\<open>memcpy\<close> calls of \<^verbatim>\<open>igraph_dqueue_push\<close> leave in the new, zero-filled
  buffer of a full deque: the slots from \<open>begin\<close> to the end of the old buffer, then the
  slots from its start to \<open>end\<close>.
\<close>

definition grown_buffer :: "'a::zero list \<Rightarrow> nat \<Rightarrow> nat \<Rightarrow> 'a list" where
  "grown_buffer buf i j = drop i buf @ take j buf @ replicate (length buf + 1) 0"

text \<open>
  The growth step in the specification's words, to be compared with the code: a new buffer
  of \<open>2 * capacity + 1\<close> slots; the live range copied to its start as two segments, from
  \<open>begin\<close> to the old physical end and then from the physical start to \<open>end\<close>; the old
  buffer released; \<open>begin\<close> at slot 0, \<open>end\<close> at the old capacity.
\<close>

definition grow_and_release :: "dqueue \<Rightarrow> 'a::zero heap \<Rightarrow> dqueue \<times> 'a heap" where
  "grow_and_release q h =
     (case mem h (block (stor_begin q)) of
        None \<Rightarrow> (q, h)
      | Some buf \<Rightarrow>
          let cap = length buf;
              new = Suc (length h);
              seg1 = drop (nat (offset (begin_ptr q))) buf;
              seg2 = take (nat (offset (end_ptr q))) buf;
              newbuf = take (2 * cap + 1) (seg1 @ seg2 @ replicate (2 * cap + 1) 0)
          in (q\<lparr>begin_ptr := Ptr new 0, end_ptr := Ptr new (int cap),
                 stor_begin := Ptr new 0, stor_end := Ptr new (2 * int cap + 1)\<rparr>,
              set_block (h @ [Some newbuf]) (block (stor_begin q)) None))"

text \<open>
  The states a program can bring a deque to: it initialises the deque, then pushes (with
  either outcome of an allocation), pops at either end while the deque is not empty, and
  clears. All of them are valid (\<open>reachable_valid\<close> below), so what is proved of every
  valid state holds of every reachable one.
\<close>

inductive reachable :: "'a::zero heap \<Rightarrow> dqueue \<Rightarrow> bool" where
  init: "igraph_dqueue_init ok q0 c h0 = (IGRAPH_SUCCESS, q, h) \<Longrightarrow> reachable h q"
| push: "reachable h q \<Longrightarrow> igraph_dqueue_push ok q e h = Some (r, q', h') \<Longrightarrow> reachable h' q'"
| pop: "reachable h q \<Longrightarrow> igraph_dqueue_empty q = Some False \<Longrightarrow>
        igraph_dqueue_pop q h = Some (x, q') \<Longrightarrow> reachable h q'"
| pop_back: "reachable h q \<Longrightarrow> igraph_dqueue_empty q = Some False \<Longrightarrow>
        igraph_dqueue_pop_back q h = Some (x, q') \<Longrightarrow> reachable h q'"
| clear: "reachable h q \<Longrightarrow> igraph_dqueue_clear q = Some q' \<Longrightarrow> reachable h q'"

section \<open>The heap\<close>

lemma mem_Some_bounds: "mem h b = Some buf \<Longrightarrow> 0 < b \<and> b \<le> length h"
  by (auto simp: mem_def split: if_splits)

lemma mem_zero [simp]: "mem h 0 = None"
  by (simp add: mem_def)

lemma mem_set_block:
  "mem h b = Some buf \<Longrightarrow> mem (set_block h b v) b' = (if b' = b then v else mem h b')"
  by (auto simp: mem_def set_block_def split: if_splits)

lemma mem_append:
  "mem (h @ [x]) b = (if b = Suc (length h) then x else mem h b)"
  by (auto simp: mem_def nth_append)

lemma length_set_block [simp]: "length (set_block h b v) = length h"
  by (simp add: set_block_def)

lemma Ptr_eq_NULL [simp]: "(Ptr b i = NULL) = (b = 0 \<and> i = 0)" "(NULL = Ptr b i) = (b = 0 \<and> i = 0)"
  by (auto simp: NULL_def)

lemma set_block_new: "set_block (h @ [x]) (Suc (length h)) v = h @ [v]"
  by (simp add: set_block_def)

lemma memcpy_eq:
  assumes "mem h bs = Some src" "mem h bd = Some dst"
    "s + n \<le> length src" "d + n \<le> length dst"
  shows "memcpy h (Ptr bd (int d)) (Ptr bs (int s)) (int n) =
           Some (set_block h bd (Some (take d dst @ take n (drop s src) @ drop (d + n) dst)))"
proof -
  have "length (take n (drop s src)) = n" using assms by simp
  then show ?thesis
    using assms by (simp add: memcpy_def load_range_def store_range_def)
qed


section \<open>The circular layout\<close>

lemma ring_first:
  "i < length buf \<Longrightarrow> ring (buf[i := e]) i (if Suc i = length buf then 0 else Suc i) = [e]"
  by (auto simp: ring_def drop_update_cancel take_Suc_conv_app_nth Cons_nth_drop_Suc[symmetric])

lemma upd_last_conv:
  "length xs = Suc k \<Longrightarrow> xs[k := e] = take k xs @ [e]"
  by (simp add: upd_conv_take_nth_drop)

lemma ring_push:
  assumes "i < length buf" "j < length buf" "i \<noteq> j"
  shows "ring (buf[j := e]) i (if Suc j = length buf then 0 else Suc j) = ring buf i j @ [e]"
proof (cases "i < j")
  case True
  show ?thesis
  proof (cases "Suc j = length buf")
    case last: True
    have "drop i (buf[j := e]) = (drop i buf)[j - i := e]"
      using True by (simp add: drop_update_swap)
    also have "\<dots> = take (j - i) (drop i buf) @ [e]"
      using True last by (intro upd_last_conv) simp
    finally show ?thesis using True last by (simp add: ring_def)
  next
    case False
    have "take (Suc j - i) (drop i (buf[j := e])) = take (Suc (j - i)) ((drop i buf)[j - i := e])"
      using True by (simp add: drop_update_swap Suc_diff_le)
    also have "\<dots> = take (j - i) (drop i buf) @ [e]"
      using True assms False by (simp add: take_Suc_conv_app_nth)
    finally show ?thesis using True False by (simp add: ring_def)
  qed
next
  case False
  with assms have lt: "j < i" by simp
  then have "Suc j \<noteq> length buf" using assms by simp
  moreover have "drop i (buf[j := e]) = drop i buf" using lt by simp
  moreover have "take (Suc j) (buf[j := e]) = take j buf @ [e]"
    using assms by (simp add: take_Suc_conv_app_nth)
  ultimately show ?thesis using lt by (simp add: ring_def)
qed

lemma ring_pop:
  assumes "i < length buf" "j < length buf"
  shows "ring buf i j =
           buf ! i # (let i' = (if Suc i = length buf then 0 else Suc i)
                      in if i' = j then [] else ring buf i' j)"
proof (cases "i < j")
  case True
  have "j - i = Suc (j - Suc i)" using True by simp
  moreover have "drop i buf = buf ! i # drop (Suc i) buf"
    using assms by (simp add: Cons_nth_drop_Suc)
  ultimately have "take (j - i) (drop i buf) = buf ! i # take (j - Suc i) (drop (Suc i) buf)"
    by simp
  then show ?thesis using True assms by (auto simp: ring_def Let_def)
next
  case False
  have d: "drop i buf = buf ! i # drop (Suc i) buf"
    using assms by (simp add: Cons_nth_drop_Suc)
  show ?thesis
  proof (cases "Suc i = length buf")
    case True
    then show ?thesis using False d assms by (cases j) (auto simp: ring_def Let_def)
  next
    case False
    then show ?thesis using \<open>\<not> i < j\<close> d assms by (auto simp: ring_def Let_def)
  qed
qed

lemma ring_pop_back:
  assumes "i < length buf" "j < length buf"
  shows "ring buf i j =
           (let j' = (if j = 0 then length buf - 1 else j - 1)
            in if i = j' then [] else ring buf i j') @
           [buf ! (if j = 0 then length buf - 1 else j - 1)]"
proof (cases j)
  case 0
  let ?n = "length buf - 1"
  have n: "Suc ?n = length buf" using assms by simp
  have "drop i buf = drop i (take ?n buf @ [buf ! ?n])"
    using n by (metis lessI take_Suc_conv_app_nth take_all order_refl)
  also have "\<dots> = drop i (take ?n buf) @ [buf ! ?n]"
    using assms by simp
  also have "drop i (take ?n buf) = take (?n - i) (drop i buf)"
    by (simp add: drop_take)
  finally have "drop i buf = take (?n - i) (drop i buf) @ [buf ! ?n]" .
  then show ?thesis using 0 assms by (auto simp: ring_def Let_def)
next
  case (Suc k)
  have t: "take (Suc k) buf = take k buf @ [buf ! k]"
    using assms Suc by (simp add: take_Suc_conv_app_nth)
  show ?thesis
  proof (cases "i < j")
    case True
    have "take (Suc k - i) (drop i buf) = drop i (take (Suc k) buf)"
      by (simp add: drop_take)
    also have "\<dots> = drop i (take k buf) @ [buf ! k]"
      using True Suc t assms by (simp add: min_def)
    also have "drop i (take k buf) = take (k - i) (drop i buf)"
      by (simp add: drop_take)
    finally show ?thesis using True Suc assms by (auto simp: ring_def Let_def)
  next
    case False
    then show ?thesis using Suc t assms by (auto simp: ring_def Let_def)
  qed
qed

lemma length_ring:
  "i < length buf \<Longrightarrow> j < length buf \<Longrightarrow>
   length (ring buf i j) = (if i < j then j - i else length buf - i + j)"
  by (auto simp: ring_def)

section \<open>The operations on valid states\<close>

lemma dq_validE:
  assumes "dq_valid h q"
  obtains b buf i where
    "mem h b = Some buf" "buf \<noteq> []" "i < length buf"
    "stor_begin q = Ptr b 0" "stor_end q = Ptr b (int (length buf))"
    "begin_ptr q = Ptr b (int i)"
    "end_ptr q = NULL \<or> (\<exists>j<length buf. end_ptr q = Ptr b (int j))"
proof -
  obtain b s where sb: "stor_begin q = Ptr b s" by (cases "stor_begin q")
  obtain b1 i1 where bp: "begin_ptr q = Ptr b1 i1" by (cases "begin_ptr q")
  obtain b2 i2 where ep: "end_ptr q = Ptr b2 i2" by (cases "end_ptr q")
  from assms sb obtain buf where m: "mem h b = Some buf"
    by (auto simp: dq_valid_def split: option.splits)
  from assms sb bp ep m have f: "s = 0" "buf \<noteq> []" "stor_end q = Ptr b (int (length buf))"
    "b1 = b" "0 \<le> i1" "i1 < int (length buf)"
    "end_ptr q = NULL \<or> (b2 = b \<and> 0 \<le> i2 \<and> i2 < int (length buf))"
    by (auto simp: dq_valid_def)
  have e: "end_ptr q = NULL \<or> (\<exists>j<length buf. end_ptr q = Ptr b (int j))"
  proof (cases "end_ptr q = NULL")
    case False
    with f(7) have "b2 = b" "0 \<le> i2" "i2 < int (length buf)" by auto
    then have "nat i2 < length buf \<and> end_ptr q = Ptr b (int (nat i2))" using ep by auto
    then show ?thesis by blast
  qed simp
  show ?thesis
    by (rule that[of b buf "nat i1"]) (use m f sb bp e in auto)
qed


lemma put_at_end_eq:
  assumes "mem h b = Some buf" "j < length buf" "end_ptr q = Ptr b (int j)"
    "stor_end q = Ptr b (int (length buf))" "stor_begin q = Ptr b 0"
  shows "put_at_end q e h =
           Some (q\<lparr>end_ptr := Ptr b (if Suc j = length buf then 0 else int (Suc j))\<rparr>,
                 set_block h b (Some (buf[j := e])))"
  using assms by (auto simp: put_at_end_def store_def ptr_add_def Let_def)

lemma dq_valid_put:
  assumes "mem h b = Some buf" "i < length buf" "j < length buf"
    "stor_begin q = Ptr b 0" "stor_end q = Ptr b (int (length buf))"
    "begin_ptr q = Ptr b (int i)"
  shows "dq_valid (set_block h b (Some (buf[j := e])))
           (q\<lparr>end_ptr := Ptr b (if Suc j = length buf then 0 else int (Suc j))\<rparr>)"
  using assms by (auto simp: dq_valid_def mem_set_block dest: mem_Some_bounds)

lemma dq_list_ring:
  assumes "mem h b = Some buf" "stor_begin q = Ptr b 0" "begin_ptr q = Ptr b (int i)"
    "end_ptr q = Ptr b (int j)"
  shows "dq_list h q = ring buf i j"
  using assms by (auto simp: dq_list_def dest: mem_Some_bounds)

lemma dq_list_empty:
  "end_ptr q = NULL \<Longrightarrow> dq_list h q = []"
  by (simp add: dq_list_def split: option.splits)

lemma push_not_full:
  assumes v: "dq_valid h q" and nf: "begin_ptr q \<noteq> end_ptr q"
  shows "\<exists>q' h'. igraph_dqueue_push ok q e h = Some (IGRAPH_SUCCESS, q', h') \<and>
           dq_valid h' q' \<and> dq_list h' q' = dq_list h q @ [e] \<and>
           stor_begin q' = stor_begin q \<and> stor_end q' = stor_end q \<and>
           begin_ptr q' = begin_ptr q \<and>
           map (map_option length) h' = map (map_option length) h"
proof -
  from v obtain b buf i where
    m: "mem h b = Some buf" and ne: "buf \<noteq> []" and i: "i < length buf" and
    sb: "stor_begin q = Ptr b 0" and se: "stor_end q = Ptr b (int (length buf))" and
    bp: "begin_ptr q = Ptr b (int i)" and
    ep: "end_ptr q = NULL \<or> (\<exists>j<length buf. end_ptr q = Ptr b (int j))"
    by (rule dq_validE)
  have b0: "0 < b" "b \<le> length h" using mem_Some_bounds[OF m] by auto
  define j where "j = (if end_ptr q = NULL then i else nat (offset (end_ptr q)))"
  define q1 where "q1 = (if end_ptr q = NULL then q\<lparr>end_ptr := begin_ptr q\<rparr> else q)"
  have j: "j < length buf" and q1e: "end_ptr q1 = Ptr b (int j)"
    using ep i bp b0 by (auto simp: j_def q1_def)
  have q1f: "stor_begin q1 = Ptr b 0" "stor_end q1 = Ptr b (int (length buf))"
    "begin_ptr q1 = Ptr b (int i)"
    using sb se bp by (auto simp: q1_def)
  let ?q' = "q1\<lparr>end_ptr := Ptr b (if Suc j = length buf then 0 else int (Suc j))\<rparr>"
  let ?h' = "set_block h b (Some (buf[j := e]))"
  have p: "put_at_end q1 e h = Some (?q', ?h')"
    by (rule put_at_end_eq[OF m j q1e q1f(2) q1f(1)])
  have run: "igraph_dqueue_push ok q e h = Some (IGRAPH_SUCCESS, ?q', ?h')"
    using nf sb b0 p by (simp add: igraph_dqueue_push_def q1_def[symmetric])
  have val: "dq_valid ?h' ?q'"
    by (rule dq_valid_put[OF m i j q1f(1) q1f(2) q1f(3)])
  have m': "mem ?h' b = Some (buf[j := e])" using m by (simp add: mem_set_block)
  have l': "dq_list ?h' ?q' = ring (buf[j := e]) i (if Suc j = length buf then 0 else Suc j)"
    by (rule dq_list_ring[OF m']) (use q1f in auto)
  have lst: "dq_list ?h' ?q' = dq_list h q @ [e]"
  proof (cases "end_ptr q = NULL")
    case True
    then have "j = i" by (simp add: j_def)
    then have "dq_list ?h' ?q' = ring (buf[i := e]) i (if Suc i = length buf then 0 else Suc i)"
      using l' by simp
    then have "dq_list ?h' ?q' = [e]" by (simp only: ring_first[OF i])
    then show ?thesis using True by (simp add: dq_list_empty)
  next
    case False
    then have "q1 = q" by (simp add: q1_def)
    then have "dq_list h q = ring buf i j"
      using dq_list_ring[OF m sb bp] q1e by simp
    moreover have "i \<noteq> j" using nf bp q1e \<open>q1 = q\<close> by auto
    ultimately show ?thesis using l' ring_push[OF i j] by simp
  qed
  have shape: "map (map_option length) ?h' = map (map_option length) h"
    using m b0 by (auto simp: set_block_def mem_def map_update intro!: nth_equalityI simp: nth_list_update)
  show ?thesis
    using run val lst shape q1f sb se bp by (intro exI[of _ ?q'] exI[of _ ?h']) simp
qed

lemma push_full_run:
  assumes m: "mem h b = Some buf" and i: "i < length buf"
    and sb: "stor_begin q = Ptr b 0" and se: "stor_end q = Ptr b (int (length buf))"
    and bp: "begin_ptr q = Ptr b (int i)" and ep: "end_ptr q = Ptr b (int i)"
  shows "igraph_dqueue_push True q e h =
           Some (IGRAPH_SUCCESS,
                 q\<lparr>end_ptr := Ptr (Suc (length h)) (int (length buf) + 1),
                   stor_end := Ptr (Suc (length h)) (2 * int (length buf) + 1),
                   stor_begin := Ptr (Suc (length h)) 0,
                   begin_ptr := Ptr (Suc (length h)) 0\<rparr>,
                 set_block (h @ [Some ((grown_buffer buf i i)[length buf := e])]) b None)"
proof -
  let ?n = "length buf"
  let ?nb = "Suc (length h)"
  let ?z = "replicate (2 * ?n + 1) (0::'a)"
  let ?h1 = "h @ [Some ?z]"
  have b0: "0 < b" "b \<le> length h" using mem_Some_bounds[OF m] by auto
  have mb: "mem (h @ [x]) b = Some buf" for x using m b0 by (simp add: mem_append)
  have mn: "mem (h @ [x]) ?nb = x" for x by (simp add: mem_append)
  have ca: "igraph_Calloc True (2 * ptr_diff (stor_end q) (stor_begin q) + 1) h
              = (Ptr ?nb 0, ?h1)"
    using sb se by (simp add: igraph_Calloc_def ptr_diff_def nat_add_distrib nat_mult_distrib)
  let ?b2 = "drop i buf @ replicate (?n + i + 1) (0::'a)"
  let ?h2 = "h @ [Some ?b2]"
  have "drop (?n - i) ?z = replicate (?n + i + 1) 0"
    unfolding drop_replicate using i by (intro arg_cong[where f = "\<lambda>k. replicate k 0"]) arith
  then have "take 0 ?z @ take (?n - i) (drop i buf) @ drop (0 + (?n - i)) ?z = ?b2"
    by simp
  moreover have "memcpy ?h1 (Ptr ?nb (int 0)) (Ptr b (int i)) (int (?n - i)) =
      Some (set_block ?h1 ?nb (Some (take 0 ?z @ take (?n - i) (drop i buf) @ drop (0 + (?n - i)) ?z)))"
    by (rule memcpy_eq[OF mb mn]) (use i in simp_all)
  ultimately have c1: "memcpy ?h1 (Ptr ?nb 0) (Ptr b (int i)) (int (?n - i)) = Some ?h2"
    by (simp only: set_block_new int_ops)
  have d1: "ptr_diff (stor_end q) (begin_ptr q) = int (?n - i)"
    using se bp i by (simp add: ptr_diff_def)
  have d2: "ptr_diff (end_ptr q) (stor_begin q) = int i"
    using sb ep by (simp add: ptr_diff_def)
  have d3: "ptr_diff (stor_end q) (stor_begin q) = int ?n"
    using sb se by (simp add: ptr_diff_def)
  let ?g = "grown_buffer buf i i"
  let ?h3 = "h @ [Some ?g]"
  have "drop ?n ?b2 = replicate (?n + 1) 0"
    using i by (simp add: drop_replicate del: replicate_Suc replicate.simps)
  then have "take (?n - i) ?b2 @ take i (drop 0 buf) @ drop (?n - i + i) ?b2 = ?g"
    using i by (simp add: grown_buffer_def del: replicate_Suc replicate.simps)
  moreover have "memcpy ?h2 (Ptr ?nb (int (?n - i))) (Ptr b (int 0)) (int i) =
      Some (set_block ?h2 ?nb (Some (take (?n - i) ?b2 @ take i (drop 0 buf) @ drop (?n - i + i) ?b2)))"
    by (rule memcpy_eq[OF mb mn]) (use i in simp_all)
  ultimately have c2: "memcpy ?h2 (Ptr ?nb (int (?n - i))) (Ptr b 0) (int i) = Some ?h3"
    by (simp only: set_block_new int_ops)
  have c2': "i = 0 \<Longrightarrow> ?h2 = ?h3"
    by (simp add: grown_buffer_def del: replicate_Suc replicate.simps)
  have lg: "length ?g = 2 * ?n + 1"
    using i by (simp add: grown_buffer_def)
  let ?q1 = "q\<lparr>end_ptr := Ptr ?nb (int ?n), stor_end := Ptr ?nb (2 * int ?n + 1),
               stor_begin := Ptr ?nb 0, begin_ptr := Ptr ?nb 0\<rparr>"
  let ?h4 = "h @ [Some (?g[?n := e])]"
  have "put_at_end ?q1 e ?h3 =
      Some (?q1\<lparr>end_ptr := Ptr ?nb (if Suc ?n = length ?g then 0 else int (Suc ?n))\<rparr>,
            set_block ?h3 ?nb (Some (?g[?n := e])))"
    by (rule put_at_end_eq[OF mn]) (simp_all add: lg)
  moreover have "buf \<noteq> []" using i by auto
  ultimately have p: "put_at_end ?q1 e ?h3 = Some (?q1\<lparr>end_ptr := Ptr ?nb (int ?n + 1)\<rparr>, ?h4)"
    by (simp add: lg set_block_new)
  have fr: "igraph_Free ?h4 (Ptr b 0) = Some (set_block ?h4 b None)"
    using mb b0 by (simp add: igraph_Free_def)
  have "igraph_dqueue_push True q e h =
      Some (IGRAPH_SUCCESS, ?q1\<lparr>end_ptr := Ptr ?nb (int ?n + 1)\<rparr>, set_block ?h4 b None)"
  proof (cases "i = 0")
    case True
    show ?thesis
      unfolding igraph_dqueue_push_def
      using sb bp ep b0 ca d1 d2 d3 c1 c2'[OF True] p fr True i
      by (simp add: Let_def ptr_add_def)
  next
    case False
    show ?thesis
      unfolding igraph_dqueue_push_def
      using sb bp ep b0 ca d1 d2 d3 c1 c2 p fr False i
      by (simp add: Let_def ptr_add_def)
  qed
  then show ?thesis by simp
qed

lemma dq_valid_not_null: "dq_valid h q \<Longrightarrow> stor_begin q \<noteq> NULL \<and> begin_ptr q \<noteq> NULL"
  by (erule dq_validE) (auto dest: mem_Some_bounds)

lemma push_full:
  assumes v: "dq_valid h q" and f: "begin_ptr q = end_ptr q"
  shows "\<exists>q' h'. igraph_dqueue_push True q e h = Some (IGRAPH_SUCCESS, q', h') \<and>
           dq_valid h' q' \<and> dq_list h' q' = dq_list h q @ [e]"
proof -
  from v obtain b buf i where
    m: "mem h b = Some buf" and i: "i < length buf" and
    sb: "stor_begin q = Ptr b 0" and se: "stor_end q = Ptr b (int (length buf))" and
    bp: "begin_ptr q = Ptr b (int i)"
    by (rule dq_validE)
  have ep: "end_ptr q = Ptr b (int i)" using f bp by simp
  have b0: "0 < b" "b \<le> length h" using mem_Some_bounds[OF m] by auto
  let ?nb = "Suc (length h)"
  let ?g = "(grown_buffer buf i i)[length buf := e]"
  let ?q' = "q\<lparr>end_ptr := Ptr ?nb (int (length buf) + 1),
               stor_end := Ptr ?nb (2 * int (length buf) + 1),
               stor_begin := Ptr ?nb 0, begin_ptr := Ptr ?nb 0\<rparr>"
  let ?h' = "set_block (h @ [Some ?g]) b None"
  have run: "igraph_dqueue_push True q e h = Some (IGRAPH_SUCCESS, ?q', ?h')"
    by (rule push_full_run[OF m i sb se bp ep])
  have mb: "mem (h @ [Some ?g]) b = Some buf" using m b0 by (simp add: mem_append)
  have mn: "mem ?h' ?nb = Some ?g"
    using b0 by (simp add: mem_set_block[OF mb] mem_append)
  have lg: "length ?g = 2 * length buf + 1" using i by (simp add: grown_buffer_def)
  have "?g \<noteq> []" using lg by auto
  then have val: "dq_valid ?h' ?q'"
    using mn lg i by (auto simp: dq_valid_def)
  have "dq_list ?h' ?q' = ring ?g 0 (length buf + 1)"
    using mn by (simp add: dq_list_def nat_add_distrib)
  also have "\<dots> = take (length buf + 1) ?g" by (simp add: ring_def)
  also have "\<dots> = (drop i buf @ take i buf) @ [e]"
  proof -
    have "grown_buffer buf i i = (drop i buf @ take i buf) @ 0 # replicate (length buf) 0"
      by (simp add: grown_buffer_def)
    moreover have "length (drop i buf @ take i buf) = length buf" using i by simp
    ultimately have "?g = (drop i buf @ take i buf) @ e # replicate (length buf) 0"
      by (metis list_update_length)
    then show ?thesis using i by simp
  qed
  also have "drop i buf @ take i buf = dq_list h q"
    using dq_list_ring[OF m sb bp ep] by (simp add: ring_def)
  finally show ?thesis using run val by blast
qed

lemma push_alloc_fails:
  assumes v: "dq_valid h q" and f: "begin_ptr q = end_ptr q"
  shows "igraph_dqueue_push False q e h = Some (IGRAPH_ENOMEM, q, h)"
  using dq_valid_not_null[OF v] f
  by (simp add: igraph_dqueue_push_def igraph_Calloc_def NULL_def)

lemma pop_nonempty:
  assumes v: "dq_valid h q" and ne: "end_ptr q \<noteq> NULL"
  shows "\<exists>x q'. igraph_dqueue_pop q h = Some (x, q') \<and> dq_valid h q' \<and>
           dq_list h q = x # dq_list h q' \<and>
           stor_begin q' = stor_begin q \<and> stor_end q' = stor_end q"
proof -
  from v ne obtain b buf i j where
    m: "mem h b = Some buf" and i: "i < length buf" and
    sb: "stor_begin q = Ptr b 0" and se: "stor_end q = Ptr b (int (length buf))" and
    bp: "begin_ptr q = Ptr b (int i)" and j: "j < length buf" and
    ep: "end_ptr q = Ptr b (int j)"
    by (auto elim!: dq_validE)
  have b0: "0 < b" "b \<le> length h" using mem_Some_bounds[OF m] by auto
  define i' where "i' = (if Suc i = length buf then 0 else Suc i)"
  have i': "i' < length buf" using i by (auto simp: i'_def)
  let ?q' = "q\<lparr>begin_ptr := Ptr b (int i'), end_ptr := (if i' = j then NULL else Ptr b (int j))\<rparr>"
  have run: "igraph_dqueue_pop q h = Some (buf ! i, ?q')"
    using m i sb se bp ep b0
    by (auto simp: igraph_dqueue_pop_def load_def ptr_add_def Let_def i'_def)
  have val: "dq_valid h ?q'"
    using m i' j sb se b0 by (auto simp: dq_valid_def)
  have "dq_list h ?q' = (if i' = j then [] else ring buf i' j)"
    using m sb b0 by (simp add: dq_list_def)
  moreover have "dq_list h q = ring buf i j" by (rule dq_list_ring[OF m sb bp ep])
  ultimately have "dq_list h q = buf ! i # dq_list h ?q'"
    using ring_pop[OF i j] by (simp add: Let_def i'_def)
  then show ?thesis using run val by (intro exI[of _ "buf ! i"] exI[of _ ?q']) simp
qed

lemma pop_back_nonempty:
  assumes v: "dq_valid h q" and ne: "end_ptr q \<noteq> NULL"
  shows "\<exists>x q'. igraph_dqueue_pop_back q h = Some (x, q') \<and> dq_valid h q' \<and>
           dq_list h q = dq_list h q' @ [x] \<and>
           stor_begin q' = stor_begin q \<and> stor_end q' = stor_end q"
proof -
  from v ne obtain b buf i j where
    m: "mem h b = Some buf" and i: "i < length buf" and
    sb: "stor_begin q = Ptr b 0" and se: "stor_end q = Ptr b (int (length buf))" and
    bp: "begin_ptr q = Ptr b (int i)" and j: "j < length buf" and
    ep: "end_ptr q = Ptr b (int j)"
    by (auto elim!: dq_validE)
  have b0: "0 < b" "b \<le> length h" using mem_Some_bounds[OF m] by auto
  define j' where "j' = (if j = 0 then length buf - 1 else j - 1)"
  have j': "j' < length buf" using j by (auto simp: j'_def)
  let ?q' = "q\<lparr>end_ptr := (if i = j' then NULL else Ptr b (int j'))\<rparr>"
  have run: "igraph_dqueue_pop_back q h = Some (buf ! j', ?q')"
  proof (cases "j = 0")
    case True
    then have jj: "j' = length buf - 1" by (simp add: j'_def)
    have "buf \<noteq> []" using i by auto
    then have "int (length buf) - 1 = int j'" using jj by (cases buf) simp_all
    then show ?thesis
      using True m i j' sb se bp ep b0 \<open>buf \<noteq> []\<close>
      by (simp add: igraph_dqueue_pop_back_def load_def ptr_add_def)
  next
    case False
    then have "int j - 1 = int j'" by (simp add: j'_def)
    then show ?thesis
      using False m i j j' sb se bp ep b0
      by (simp add: igraph_dqueue_pop_back_def load_def ptr_add_def)
  qed
  have val: "dq_valid h ?q'"
    using m i j' sb se bp b0 by (auto simp: dq_valid_def)
  have "dq_list h ?q' = (if i = j' then [] else ring buf i j')"
    using m sb bp b0 by (simp add: dq_list_def)
  moreover have "dq_list h q = ring buf i j" by (rule dq_list_ring[OF m sb bp ep])
  ultimately have "dq_list h q = dq_list h ?q' @ [buf ! j']"
    using ring_pop_back[OF i j] by (simp add: Let_def j'_def)
  then show ?thesis using run val by (intro exI[of _ "buf ! j'"] exI[of _ ?q']) simp
qed

lemma init_ok:
  "igraph_dqueue_init True q0 c h0 =
     (IGRAPH_SUCCESS,
      q0\<lparr>stor_begin := Ptr (Suc (length h0)) 0,
         stor_end := Ptr (Suc (length h0)) (if c \<le> 0 then 1 else c),
         begin_ptr := Ptr (Suc (length h0)) 0, end_ptr := NULL\<rparr>,
      h0 @ [Some (replicate (nat (if c \<le> 0 then 1 else c)) 0)])"
  by (simp add: igraph_dqueue_init_def igraph_Calloc_def Let_def ptr_add_def)

lemma init_fails:
  "igraph_dqueue_init False q0 c h0 = (IGRAPH_ENOMEM, q0\<lparr>stor_begin := NULL\<rparr>, h0)"
  by (simp add: igraph_dqueue_init_def igraph_Calloc_def Let_def)

lemma init_valid:
  assumes "igraph_dqueue_init ok q0 c h0 = (IGRAPH_SUCCESS, q, h)"
  shows "dq_valid h q \<and> end_ptr q = NULL \<and> capacity q = (if c \<le> 0 then 1 else c)"
proof (cases ok)
  case True
  with assms init_ok[of q0 c h0] have
    q: "q = q0\<lparr>stor_begin := Ptr (Suc (length h0)) 0,
         stor_end := Ptr (Suc (length h0)) (if c \<le> 0 then 1 else c),
         begin_ptr := Ptr (Suc (length h0)) 0, end_ptr := NULL\<rparr>"
    and h: "h = h0 @ [Some (replicate (nat (if c \<le> 0 then 1 else c)) 0)]"
    by simp_all
  show ?thesis
    unfolding q h by (auto simp: dq_valid_def mem_append capacity_def ptr_diff_def)
next
  case False
  with assms init_fails[of q0 c h0] show ?thesis by simp
qed

lemma push_success:
  assumes v: "dq_valid h q" and r: "igraph_dqueue_push ok q e h = Some (IGRAPH_SUCCESS, q', h')"
  shows "dq_valid h' q' \<and> dq_list h' q' = dq_list h q @ [e]"
proof (cases "begin_ptr q = end_ptr q")
  case False
  from push_not_full[OF v False, of ok e] r show ?thesis by auto
next
  case True
  show ?thesis
  proof (cases ok)
    case ok: True
    from push_full[OF v True, of e] r ok show ?thesis by auto
  next
    case False
    with push_alloc_fails[OF v True, of e] r show ?thesis by simp
  qed
qed

lemma push_total:
  assumes v: "dq_valid h q"
  shows "\<exists>q' h'. igraph_dqueue_push True q e h = Some (IGRAPH_SUCCESS, q', h')"
proof (cases "begin_ptr q = end_ptr q")
  case False
  from push_not_full[OF v False, of True e] show ?thesis by blast
next
  case True
  from push_full[OF v True, of e] show ?thesis by blast
qed

lemma dq_list_Nil_iff:
  assumes "dq_valid h q"
  shows "dq_list h q = [] \<longleftrightarrow> end_ptr q = NULL"
proof
  assume l: "dq_list h q = []"
  show "end_ptr q = NULL"
  proof (rule ccontr)
    assume ne: "end_ptr q \<noteq> NULL"
    from pop_nonempty[OF assms ne] l show False by auto
  qed
qed (simp add: dq_list_empty)

lemma size_eq:
  assumes "dq_valid h q"
  shows "igraph_dqueue_size q = Some (int (length (dq_list h q)))"
proof -
  from assms obtain b buf i where
    m: "mem h b = Some buf" and i: "i < length buf" and
    sb: "stor_begin q = Ptr b 0" and se: "stor_end q = Ptr b (int (length buf))" and
    bp: "begin_ptr q = Ptr b (int i)" and
    ep: "end_ptr q = NULL \<or> (\<exists>j<length buf. end_ptr q = Ptr b (int j))"
    by (rule dq_validE)
  have b0: "0 < b" using mem_Some_bounds[OF m] by auto
  show ?thesis
  proof (cases "end_ptr q = NULL")
    case True
    then show ?thesis using sb b0 by (simp add: igraph_dqueue_size_def dq_list_empty)
  next
    case False
    with ep obtain j where j: "j < length buf" and e: "end_ptr q = Ptr b (int j)" by auto
    have "dq_list h q = ring buf i j" by (rule dq_list_ring[OF m sb bp e])
    then show ?thesis
      using sb se bp e b0 i j length_ring[OF i j]
      by (auto simp: igraph_dqueue_size_def ptr_less_def ptr_diff_def)
  qed
qed

lemma empty_eq:
  assumes "dq_valid h q"
  shows "igraph_dqueue_empty q = Some (dq_list h q = [])"
  using dq_valid_not_null[OF assms] dq_list_Nil_iff[OF assms]
  by (simp add: igraph_dqueue_empty_def)

lemma back_eq:
  assumes v: "dq_valid h q" and ne: "end_ptr q \<noteq> NULL"
  shows "igraph_dqueue_back q h = Some (last (dq_list h q))"
proof -
  from v ne obtain b buf i j where
    m: "mem h b = Some buf" and i: "i < length buf" and
    sb: "stor_begin q = Ptr b 0" and se: "stor_end q = Ptr b (int (length buf))" and
    bp: "begin_ptr q = Ptr b (int i)" and j: "j < length buf" and
    ep: "end_ptr q = Ptr b (int j)"
    by (auto elim!: dq_validE)
  have b0: "0 < b" using mem_Some_bounds[OF m] by auto
  define j' where "j' = (if j = 0 then length buf - 1 else j - 1)"
  have j': "j' < length buf" using j by (auto simp: j'_def)
  have "dq_list h q = ring buf i j" by (rule dq_list_ring[OF m sb bp ep])
  then have l: "last (dq_list h q) = buf ! j'"
    using ring_pop_back[OF i j] by (simp add: Let_def j'_def)
  have "buf \<noteq> []" using i by auto
  have "igraph_dqueue_back q h = Some (buf ! j')"
  proof (cases "j = 0")
    case True
    then have "j' = length buf - 1" by (simp add: j'_def)
    then have "int (length buf) - 1 = int j'" using \<open>buf \<noteq> []\<close> by (cases buf) simp_all
    then show ?thesis
      using True m j' sb se ep b0
      by (simp add: igraph_dqueue_back_def load_def ptr_add_def)
  next
    case False
    then have "int j - 1 = int j'" by (simp add: j'_def)
    then show ?thesis
      using False m j j' sb se ep b0
      by (simp add: igraph_dqueue_back_def load_def ptr_add_def)
  qed
  then show ?thesis using l by simp
qed

lemma head_eq:
  assumes v: "dq_valid h q" and ne: "end_ptr q \<noteq> NULL"
  shows "igraph_dqueue_head q h = Some (hd (dq_list h q))"
proof -
  from v ne obtain b buf i j where
    m: "mem h b = Some buf" and i: "i < length buf" and
    sb: "stor_begin q = Ptr b 0" and
    bp: "begin_ptr q = Ptr b (int i)" and j: "j < length buf" and
    ep: "end_ptr q = Ptr b (int j)"
    by (auto elim!: dq_validE)
  have b0: "0 < b" using mem_Some_bounds[OF m] by auto
  have "dq_list h q = ring buf i j" by (rule dq_list_ring[OF m sb bp ep])
  then have "hd (dq_list h q) = buf ! i" using ring_pop[OF i j] by simp
  then show ?thesis using m i sb bp b0 by (simp add: igraph_dqueue_head_def load_def)
qed

lemma push_all_list:
  assumes "dq_valid h q" "push_all q oes h = Some (q', h')"
  shows "dq_valid h' q' \<and> dq_list h' q' = dq_list h q @ map snd oes"
  using assms
proof (induction oes arbitrary: q h)
  case Nil
  then show ?case by simp
next
  case (Cons oe oes)
  obtain ok e where oe: "oe = (ok, e)" by (cases oe)
  from Cons.prems(2) oe obtain q1 h1 where
    p: "igraph_dqueue_push ok q e h = Some (IGRAPH_SUCCESS, q1, h1)" and
    r: "push_all q1 oes h1 = Some (q', h')"
    by (auto split: option.splits retcode.splits)
  from push_success[OF Cons.prems(1) p] have v1: "dq_valid h1 q1"
    and l1: "dq_list h1 q1 = dq_list h q @ [e]" by auto
  from Cons.IH[OF v1 r] l1 oe show ?case by simp
qed

lemma push_all_total:
  assumes "dq_valid h q" "list_all fst oes"
  shows "\<exists>q' h'. push_all q oes h = Some (q', h')"
  using assms
proof (induction oes arbitrary: q h)
  case Nil
  then show ?case by simp
next
  case (Cons oe oes)
  then obtain e where oe: "oe = (True, e)" by (cases oe) auto
  from push_total[OF Cons.prems(1), of e] obtain q1 h1 where
    p: "igraph_dqueue_push True q e h = Some (IGRAPH_SUCCESS, q1, h1)" by blast
  from push_success[OF Cons.prems(1) p] have v1: "dq_valid h1 q1" by simp
  from Cons.IH[OF v1] Cons.prems(2) p oe show ?case by simp
qed

lemma pop_n_list:
  assumes "dq_valid h q"
  shows "\<exists>q'. pop_n (length (dq_list h q)) q h = Some (dq_list h q, q') \<and>
           dq_valid h q' \<and> end_ptr q' = NULL"
  using assms
proof (induction "length (dq_list h q)" arbitrary: q)
  case 0
  then have "dq_list h q = []" by simp
  with 0 dq_list_Nil_iff[of h q] show ?case by simp
next
  case (Suc n)
  then have "dq_list h q \<noteq> []" by auto
  then have ne: "end_ptr q \<noteq> NULL" using dq_list_empty by blast
  from pop_nonempty[OF Suc.prems ne] obtain x q1 where
    p: "igraph_dqueue_pop q h = Some (x, q1)" and v1: "dq_valid h q1" and
    l: "dq_list h q = x # dq_list h q1" by blast
  from l Suc.hyps(2) have n: "n = length (dq_list h q1)" by simp
  from Suc.hyps(1)[OF n v1] obtain q' where
    "pop_n (length (dq_list h q1)) q1 h = Some (dq_list h q1, q')" "dq_valid h q'"
    "end_ptr q' = NULL" by blast
  then show ?case using p l by simp
qed

lemma pop_back_n_list:
  assumes "dq_valid h q"
  shows "\<exists>q'. pop_back_n (length (dq_list h q)) q h = Some (rev (dq_list h q), q') \<and>
           dq_valid h q' \<and> end_ptr q' = NULL"
  using assms
proof (induction "length (dq_list h q)" arbitrary: q)
  case 0
  then have "dq_list h q = []" by simp
  with 0 dq_list_Nil_iff[of h q] show ?case by simp
next
  case (Suc n)
  then have "dq_list h q \<noteq> []" by auto
  then have ne: "end_ptr q \<noteq> NULL" using dq_list_empty by blast
  from pop_back_nonempty[OF Suc.prems ne] obtain x q1 where
    p: "igraph_dqueue_pop_back q h = Some (x, q1)" and v1: "dq_valid h q1" and
    l: "dq_list h q = dq_list h q1 @ [x]" by blast
  from l Suc.hyps(2) have n: "n = length (dq_list h q1)" by simp
  from Suc.hyps(1)[OF n v1] obtain q' where
    "pop_back_n (length (dq_list h q1)) q1 h = Some (rev (dq_list h q1), q')" "dq_valid h q'"
    "end_ptr q' = NULL" by blast
  then show ?case using p l by simp
qed

lemma grow_and_release_full:
  assumes m: "mem h b = Some buf" and i: "i < length buf"
    and sb: "stor_begin q = Ptr b 0"
    and bp: "begin_ptr q = Ptr b (int i)" and ep: "end_ptr q = Ptr b (int i)"
  shows "grow_and_release q h =
           (q\<lparr>begin_ptr := Ptr (Suc (length h)) 0,
              end_ptr := Ptr (Suc (length h)) (int (length buf)),
              stor_begin := Ptr (Suc (length h)) 0,
              stor_end := Ptr (Suc (length h)) (2 * int (length buf) + 1)\<rparr>,
            set_block (h @ [Some (grown_buffer buf i i)]) b None)"
proof -
  have "length (drop i buf @ take i buf) = length buf" using i by simp
  then have "take (2 * length buf + 1)
          (drop i buf @ take i buf @ replicate (2 * length buf + 1) 0) =
        drop i buf @ take i buf @ replicate (length buf + 1) (0::'a)"
    using i by (simp add: min_def del: replicate_Suc replicate.simps)
  then show ?thesis
    using m sb bp ep by (simp add: grow_and_release_def grown_buffer_def Let_def)
qed

lemma set_block_swap:
  "b \<noteq> b' \<Longrightarrow> 0 < b \<Longrightarrow> 0 < b' \<Longrightarrow>
   set_block (set_block h b v) b' w = set_block (set_block h b' w) b v"
  by (simp add: set_block_def list_update_swap)

lemma push_valid:
  assumes v: "dq_valid h q" and r: "igraph_dqueue_push ok q e h = Some (r, q', h')"
  shows "dq_valid h' q'"
proof (cases r)
  case IGRAPH_SUCCESS
  with push_success[OF v] r show ?thesis by simp
next
  case IGRAPH_ENOMEM
  show ?thesis
  proof (cases "begin_ptr q = end_ptr q")
    case False
    from push_not_full[OF v False, of ok e] r IGRAPH_ENOMEM show ?thesis by auto
  next
    case True
    show ?thesis
    proof (cases ok)
      case ok: True
      from push_full[OF v True, of e] r ok IGRAPH_ENOMEM show ?thesis by auto
    next
      case False
      with push_alloc_fails[OF v True, of e] r v show ?thesis by simp
    qed
  qed
qed

lemma clear_valid:
  assumes v: "dq_valid h q" and c: "igraph_dqueue_clear q = Some q'"
  shows "dq_valid h q' \<and> dq_list h q' = []"
proof -
  from v obtain b buf i where
    m: "mem h b = Some buf" and i: "i < length buf" and
    sb: "stor_begin q = Ptr b 0" and se: "stor_end q = Ptr b (int (length buf))"
    by (rule dq_validE)
  have b0: "0 < b" using mem_Some_bounds[OF m] by simp
  from c sb b0 have q': "q' = q\<lparr>begin_ptr := stor_begin q, end_ptr := NULL\<rparr>"
    by (simp add: igraph_dqueue_clear_def)
  have "buf \<noteq> []" using i by auto
  then show ?thesis unfolding q' using m sb se by (simp add: dq_valid_def dq_list_empty)
qed

lemma reachable_valid: "reachable h q \<Longrightarrow> dq_valid h q"
proof (induction rule: reachable.induct)
  case (init ok q0 c h0 q h)
  then show ?case using init_valid by blast
next
  case (push h q ok e r q' h')
  then show ?case using push_valid by blast
next
  case (pop h q x q')
  from pop(2) have ne: "end_ptr q \<noteq> NULL"
    by (auto simp: igraph_dqueue_empty_def split: if_splits)
  from pop_nonempty[OF pop.IH ne] pop(3) show ?case by auto
next
  case (pop_back h q x q')
  from pop_back(2) have ne: "end_ptr q \<noteq> NULL"
    by (auto simp: igraph_dqueue_empty_def split: if_splits)
  from pop_back_nonempty[OF pop_back.IH ne] pop_back(3) show ?case by auto
next
  case (clear h q q')
  then show ?case using clear_valid by blast
qed

section \<open>The claims\<close>

text \<open>
  C1. Whatever capacity \<open>c\<close> is asked of \<^verbatim>\<open>igraph_dqueue_init\<close>, and whatever the
  elements: if the deque is initialised and every one of the \<open>n\<close> pushes returns success,
  then \<open>n\<close> pops return the elements in the order they were pushed, and the deque is empty
  afterwards. Pushes that reallocate are included: nothing is assumed about which pushes
  find the deque full. The pushes do all succeed when every allocation does.
\<close>

theorem fifo_push_pop:
  assumes init: "igraph_dqueue_init ok q0 c h0 = (IGRAPH_SUCCESS, q, h)"
  shows "(list_all fst oes \<longrightarrow> push_all q oes h \<noteq> None) \<and>
         (\<forall>q' h'. push_all q oes h = Some (q', h') \<longrightarrow>
            (\<exists>q''. pop_n (length oes) q' h' = Some (map snd oes, q'') \<and>
                   igraph_dqueue_empty q'' = Some True))"
proof (intro conjI impI allI)
  from init_valid[OF init] have v: "dq_valid h q" and e: "end_ptr q = NULL" by simp_all
  {
    assume "list_all fst oes"
    from push_all_total[OF v this] show "push_all q oes h \<noteq> None" by auto
  }
  fix q' h'
  assume p: "push_all q oes h = Some (q', h')"
  from push_all_list[OF v p] e have v': "dq_valid h' q'" and l: "dq_list h' q' = map snd oes"
    by (simp_all add: dq_list_empty)
  from pop_n_list[OF v'] obtain q'' where
    r: "pop_n (length (dq_list h' q')) q' h' = Some (dq_list h' q', q'')" and
    v'': "dq_valid h' q''" and e'': "end_ptr q'' = NULL" by blast
  have "igraph_dqueue_empty q'' = Some True"
    using empty_eq[OF v''] e'' by (simp add: dq_list_empty)
  with r l show "\<exists>q''. pop_n (length oes) q' h' = Some (map snd oes, q'') \<and>
      igraph_dqueue_empty q'' = Some True" by auto
qed

theorem fifo_push_pop_witness:
  "push_all \<lparr>begin_ptr = Ptr 1 0, end_ptr = NULL, stor_begin = Ptr 1 0, stor_end = Ptr 1 1\<rparr>
      [(True, 1), (True, 2), (True, 3), (True, 4)] [Some [0::int]] \<noteq> None \<and>
   (\<exists>q''. pop_n 4 \<lparr>begin_ptr = Ptr 3 0, end_ptr = Ptr 3 4, stor_begin = Ptr 3 0,
                    stor_end = Ptr 3 7\<rparr>
             [None, None, Some [1, 2, 3, 4, 0, 0, 0::int]] = Some ([1, 2, 3, 4], q'') \<and>
          igraph_dqueue_empty q'' = Some True)"
proof -
  let ?q = "\<lparr>begin_ptr = Ptr 1 0, end_ptr = NULL, stor_begin = Ptr 1 0, stor_end = Ptr 1 1\<rparr>"
  let ?oes = "[(True, 1), (True, 2), (True, 3), (True, 4::int)]"
  let ?q' = "\<lparr>begin_ptr = Ptr 3 0, end_ptr = Ptr 3 4, stor_begin = Ptr 3 0, stor_end = Ptr 3 7\<rparr>"
  let ?h' = "[None, None, Some [1, 2, 3, 4, 0, 0, 0::int]]"
  have i: "igraph_dqueue_init True dq_uninit 1 ([]::int heap) = (IGRAPH_SUCCESS, ?q, [Some [0]])"
    by code_simp
  have p: "push_all ?q ?oes [Some [0]] = Some (?q', ?h')"
    by code_simp
  have a: "list_all fst ?oes" by simp
  have n: "length ?oes = 4" and m: "map snd ?oes = [1, 2, 3, 4]" by simp_all
  note t = fifo_push_pop[OF i, of ?oes]
  from t a have "push_all ?q ?oes [Some [0]] \<noteq> None" by blast
  moreover from t p have "\<exists>q''. pop_n (length ?oes) ?q' ?h' = Some (map snd ?oes, q'') \<and>
      igraph_dqueue_empty q'' = Some True" by blast
  ultimately show ?thesis unfolding n m by blast
qed

text \<open>
  C2. \<^verbatim>\<open>igraph_dqueue_e\<close> is meant to return, for \<open>0 \<le> i < size\<close>, the element that the
  pop after \<open>i\<close> pops returns. It does not on every wrapped deque. After
  \<^verbatim>\<open>init(3); push 1; push 2; push 3; pop; push 4\<close> the deque holds 2, 3, 4 in the slots
  1, 2, 0; its size is 3; three pops return 2, 3, 4; and the element at index 2 is read as
  0. The second branch of the function tests \<^verbatim>\<open>stor_begin + idx < end\<close> with the index it
  has not yet moved back by \<^verbatim>\<open>stor_end - begin\<close>.
\<close>

theorem e_misses_wrapped_element:
  "(case igraph_dqueue_init True dq_uninit 3 ([]::int heap) of
      (r, q, h) \<Rightarrow>
        do {
          (q, h) \<leftarrow> push_all q [(True, 1), (True, 2), (True, 3)] h;
          (x, q) \<leftarrow> igraph_dqueue_pop q h;
          (q, h) \<leftarrow> push_all q [(True, 4)] h;
          n \<leftarrow> igraph_dqueue_size q;
          y \<leftarrow> igraph_dqueue_e q h 2;
          (ys, q') \<leftarrow> pop_n 3 q h;
          Some (q, h, n, y, ys)
        }) =
   Some (\<lparr>begin_ptr = Ptr 1 1, end_ptr = Ptr 1 1, stor_begin = Ptr 1 0, stor_end = Ptr 1 3\<rparr>,
         [Some [4, 2, 3]], 3, 0, [2, 3, 4])"
  by code_simp

text \<open>
  C3. A push on a full valid deque, when its allocation succeeds, is the growth step
  followed by the ordinary push on a deque that is not full: the new buffer is a fresh
  block of \<open>2 * capacity + 1\<close> slots that starts with the live elements in their logical
  order (the segment from \<open>begin\<close> to the old physical end, then the segment from the
  physical start to \<open>end\<close>) and is zero after them, the old buffer is freed, \<open>begin\<close> is
  the first slot of the new buffer and \<open>end\<close> the slot at the old capacity, and the
  element is then pushed without a further allocation. The code frees the old buffer after
  it has written the element; the state it returns is the same.
\<close>

theorem push_full_grows_then_pushes:
  assumes v: "dq_valid h q" and f: "begin_ptr q = end_ptr q"
  shows "igraph_dqueue_push True q e h =
           igraph_dqueue_push ok (fst (grow_and_release q h)) e (snd (grow_and_release q h)) \<and>
         (\<exists>q' h'. igraph_dqueue_push True q e h = Some (IGRAPH_SUCCESS, q', h')) \<and>
         begin_ptr (fst (grow_and_release q h)) \<noteq> end_ptr (fst (grow_and_release q h)) \<and>
         dq_valid (snd (grow_and_release q h)) (fst (grow_and_release q h)) \<and>
         capacity (fst (grow_and_release q h)) = 2 * capacity q + 1 \<and>
         begin_ptr (fst (grow_and_release q h)) = stor_begin (fst (grow_and_release q h)) \<and>
         end_ptr (fst (grow_and_release q h)) =
           ptr_add (stor_begin (fst (grow_and_release q h))) (capacity q) \<and>
         mem h (block (stor_begin (fst (grow_and_release q h)))) = None \<and>
         mem (snd (grow_and_release q h)) (block (stor_begin (fst (grow_and_release q h)))) =
           Some (dq_list h q @ replicate (nat (capacity q) + 1) 0) \<and>
         mem (snd (grow_and_release q h)) (block (stor_begin q)) = None \<and>
         dq_list (snd (grow_and_release q h)) (fst (grow_and_release q h)) = dq_list h q"
proof -
  from v obtain b buf i where
    m: "mem h b = Some buf" and i: "i < length buf" and
    sb: "stor_begin q = Ptr b 0" and se: "stor_end q = Ptr b (int (length buf))" and
    bp: "begin_ptr q = Ptr b (int i)"
    by (rule dq_validE)
  have ep: "end_ptr q = Ptr b (int i)" using f bp by simp
  have b0: "0 < b" "b \<le> length h" using mem_Some_bounds[OF m] by auto
  let ?n = "length buf"
  let ?nb = "Suc (length h)"
  let ?g = "grown_buffer buf i i"
  let ?qg = "q\<lparr>begin_ptr := Ptr ?nb 0, end_ptr := Ptr ?nb (int ?n),
               stor_begin := Ptr ?nb 0, stor_end := Ptr ?nb (2 * int ?n + 1)\<rparr>"
  let ?hg = "set_block (h @ [Some ?g]) b None"
  have g: "grow_and_release q h = (?qg, ?hg)"
    by (rule grow_and_release_full[OF m i sb bp ep])
  have lg: "length ?g = 2 * ?n + 1" using i by (simp add: grown_buffer_def)
  have gne: "?g \<noteq> []" using lg by auto
  have mb: "mem (h @ [Some ?g]) b = Some buf" using m b0 by (simp add: mem_append)
  have mgn: "mem ?hg ?nb = Some ?g" using b0 by (simp add: mem_set_block[OF mb] mem_append)
  have mgb: "mem ?hg b = None" by (simp add: mem_set_block[OF mb])
  have fresh: "mem h ?nb = None" by (simp add: mem_def)
  have lst: "dq_list h q = drop i buf @ take i buf"
    using dq_list_ring[OF m sb bp ep] by (simp add: ring_def)
  have cap: "capacity q = int ?n" using sb se by (simp add: capacity_def ptr_diff_def)
  have valg: "dq_valid ?hg ?qg" using mgn lg gne i by (auto simp: dq_valid_def)
  have neg: "begin_ptr ?qg \<noteq> end_ptr ?qg" using i by auto
  have "dq_list ?hg ?qg = ring ?g 0 ?n" using mgn by (simp add: dq_list_def)
  also have "\<dots> = drop i buf @ take i buf"
    using i by (cases "?n") (simp_all add: ring_def grown_buffer_def)
  finally have lstg: "dq_list ?hg ?qg = dq_list h q" using lst by simp
  have run: "igraph_dqueue_push True q e h =
      Some (IGRAPH_SUCCESS,
            q\<lparr>end_ptr := Ptr ?nb (int ?n + 1), stor_end := Ptr ?nb (2 * int ?n + 1),
              stor_begin := Ptr ?nb 0, begin_ptr := Ptr ?nb 0\<rparr>,
            set_block (h @ [Some (?g[?n := e])]) b None)"
    by (rule push_full_run[OF m i sb se bp ep])
  have "put_at_end ?qg e ?hg =
      Some (?qg\<lparr>end_ptr := Ptr ?nb (if Suc ?n = length ?g then 0 else int (Suc ?n))\<rparr>,
            set_block ?hg ?nb (Some (?g[?n := e])))"
    by (rule put_at_end_eq[OF mgn]) (simp_all add: lg)
  moreover have "Suc ?n \<noteq> length ?g" using i lg by (cases buf) simp_all
  moreover have "set_block ?hg ?nb (Some (?g[?n := e])) =
      set_block (h @ [Some (?g[?n := e])]) b None"
  proof -
    have "set_block ?hg ?nb (Some (?g[?n := e])) =
        set_block (set_block (h @ [Some ?g]) ?nb (Some (?g[?n := e]))) b None"
      using b0 by (intro set_block_swap) simp_all
    then show ?thesis by (simp add: set_block_new)
  qed
  ultimately have "put_at_end ?qg e ?hg =
      Some (?qg\<lparr>end_ptr := Ptr ?nb (int ?n + 1)\<rparr>, set_block (h @ [Some (?g[?n := e])]) b None)"
    by simp
  moreover have "buf \<noteq> []" using i by auto
  ultimately have rung: "igraph_dqueue_push ok ?qg e ?hg =
      Some (IGRAPH_SUCCESS, ?qg\<lparr>end_ptr := Ptr ?nb (int ?n + 1)\<rparr>,
            set_block (h @ [Some (?g[?n := e])]) b None)"
    by (simp add: igraph_dqueue_push_def)
  have same: "igraph_dqueue_push True q e h = igraph_dqueue_push ok ?qg e ?hg"
    unfolding run rung by simp
  have ex: "\<exists>q' h'. igraph_dqueue_push True q e h = Some (IGRAPH_SUCCESS, q', h')"
    using run by blast
  have capg: "capacity ?qg = 2 * capacity q + 1"
    using cap by (simp add: capacity_def ptr_diff_def)
  have bg: "begin_ptr ?qg = stor_begin ?qg" by simp
  have eg: "end_ptr ?qg = ptr_add (stor_begin ?qg) (capacity q)"
    using cap by (simp add: ptr_add_def)
  have fresh': "mem h (block (stor_begin ?qg)) = None" using fresh by simp
  have newbuf: "mem ?hg (block (stor_begin ?qg)) =
      Some (dq_list h q @ replicate (nat (capacity q) + 1) 0)"
    using mgn lst cap by (simp add: grown_buffer_def)
  have old: "mem ?hg (block (stor_begin q)) = None" using mgb sb by simp
  show ?thesis
    unfolding g fst_conv snd_conv
    by (intro conjI) (fact same ex neg valg capg bg eg fresh' newbuf old lstg)+
qed

theorem push_full_grows_then_pushes_witness:
  "igraph_dqueue_push True
     \<lparr>begin_ptr = Ptr 1 1, end_ptr = Ptr 1 1, stor_begin = Ptr 1 0, stor_end = Ptr 1 3\<rparr>
     9 [Some [4, 2, 3::int]] =
   igraph_dqueue_push False
     \<lparr>begin_ptr = Ptr 2 0, end_ptr = Ptr 2 3, stor_begin = Ptr 2 0, stor_end = Ptr 2 7\<rparr>
     9 [None, Some [2, 3, 4, 0, 0, 0, 0]] \<and>
   igraph_dqueue_push True
     \<lparr>begin_ptr = Ptr 1 1, end_ptr = Ptr 1 1, stor_begin = Ptr 1 0, stor_end = Ptr 1 3\<rparr>
     9 [Some [4, 2, 3::int]] =
   Some (IGRAPH_SUCCESS,
         \<lparr>begin_ptr = Ptr 2 0, end_ptr = Ptr 2 4, stor_begin = Ptr 2 0, stor_end = Ptr 2 7\<rparr>,
         [None, Some [2, 3, 4, 9, 0, 0, 0]])"
proof -
  let ?h = "[Some [4, 2, 3::int]]"
  let ?q = "\<lparr>begin_ptr = Ptr 1 1, end_ptr = Ptr 1 1, stor_begin = Ptr 1 0, stor_end = Ptr 1 3\<rparr>"
  have v: "dq_valid ?h ?q" by code_simp
  have f: "begin_ptr ?q = end_ptr ?q" by simp
  have g: "grow_and_release ?q ?h =
      (\<lparr>begin_ptr = Ptr 2 0, end_ptr = Ptr 2 3, stor_begin = Ptr 2 0, stor_end = Ptr 2 7\<rparr>,
       [None, Some [2, 3, 4, 0, 0, 0, 0]])"
    by code_simp
  have p: "igraph_dqueue_push False
      \<lparr>begin_ptr = Ptr 2 0, end_ptr = Ptr 2 3, stor_begin = Ptr 2 0, stor_end = Ptr 2 7\<rparr>
      9 [None, Some [2, 3, 4, 0, 0, 0, 0::int]] =
    Some (IGRAPH_SUCCESS,
          \<lparr>begin_ptr = Ptr 2 0, end_ptr = Ptr 2 4, stor_begin = Ptr 2 0, stor_end = Ptr 2 7\<rparr>,
          [None, Some [2, 3, 4, 9, 0, 0, 0]])"
    by code_simp
  from push_full_grows_then_pushes[OF v f, of 9 False]
  have "igraph_dqueue_push True ?q 9 ?h =
      igraph_dqueue_push False (fst (grow_and_release ?q ?h)) 9 (snd (grow_and_release ?q ?h))"
    by (rule conjunct1)
  then show ?thesis unfolding g fst_conv snd_conv using p by simp
qed

text \<open>
  C4. When the allocation of the growth step fails, \<^verbatim>\<open>igraph_dqueue_push\<close> on a full valid
  deque returns \<^verbatim>\<open>IGRAPH_ENOMEM\<close> and returns the deque and the heap it was given: no field
  has changed, the old buffer is still allocated, and it holds what it held.
\<close>

theorem push_out_of_memory_keeps_state:
  assumes "dq_valid h q" and "begin_ptr q = end_ptr q"
  shows "igraph_dqueue_push False q e h = Some (IGRAPH_ENOMEM, q, h)"
  using assms by (rule push_alloc_fails)

theorem push_out_of_memory_keeps_state_witness:
  "igraph_dqueue_push False
     \<lparr>begin_ptr = Ptr 1 1, end_ptr = Ptr 1 1, stor_begin = Ptr 1 0, stor_end = Ptr 1 3\<rparr>
     9 [Some [4, 2, 3::int]] =
   Some (IGRAPH_ENOMEM,
         \<lparr>begin_ptr = Ptr 1 1, end_ptr = Ptr 1 1, stor_begin = Ptr 1 0, stor_end = Ptr 1 3\<rparr>,
         [Some [4, 2, 3]])"
proof -
  let ?h = "[Some [4, 2, 3::int]]"
  let ?q = "\<lparr>begin_ptr = Ptr 1 1, end_ptr = Ptr 1 1, stor_begin = Ptr 1 0, stor_end = Ptr 1 3\<rparr>"
  have v: "dq_valid ?h ?q" by code_simp
  have f: "begin_ptr ?q = end_ptr ?q" by simp
  show ?thesis by (rule push_out_of_memory_keeps_state[OF v f])
qed

text \<open>
  C5. \<^verbatim>\<open>igraph_dqueue_e\<close> is meant to return 0 for an index that is out of range. On an
  empty deque it does not: \<open>end\<close> is null there, so \<^verbatim>\<open>begin >= end\<close> holds and the slot
  \<^verbatim>\<open>begin[idx]\<close> is read whenever it lies before \<open>stor_end\<close>. After
  \<^verbatim>\<open>init(1); push 7; pop\<close> the deque is empty, of size 0, and index 0 is read as 7, the
  element that was popped.
\<close>

theorem e_reads_stale_slot_of_empty_deque:
  "(case igraph_dqueue_init True dq_uninit 1 ([]::int heap) of
      (r, q, h) \<Rightarrow>
        do {
          (q, h) \<leftarrow> push_all q [(True, 7)] h;
          (x, q) \<leftarrow> igraph_dqueue_pop q h;
          b \<leftarrow> igraph_dqueue_empty q;
          n \<leftarrow> igraph_dqueue_size q;
          y \<leftarrow> igraph_dqueue_e q h 0;
          Some (q, h, b, n, y)
        }) =
   Some (\<lparr>begin_ptr = Ptr 1 0, end_ptr = NULL, stor_begin = Ptr 1 0, stor_end = Ptr 1 1\<rparr>,
         [Some [7]], True, 0, 7)"
  by code_simp

text \<open>
  C6. In every valid state, so in every reachable one, \<^verbatim>\<open>igraph_dqueue_full\<close> returns true
  exactly when \<^verbatim>\<open>igraph_dqueue_size\<close> returns the capacity; and it returns false on an
  empty deque.
\<close>

theorem full_iff_size_is_capacity:
  assumes v: "dq_valid h q"
  shows "igraph_dqueue_full q = Some (igraph_dqueue_size q = Some (capacity q)) \<and>
         (igraph_dqueue_empty q = Some True \<longrightarrow> igraph_dqueue_full q = Some False)"
proof -
  from v obtain b buf i where
    m: "mem h b = Some buf" and i: "i < length buf" and
    sb: "stor_begin q = Ptr b 0" and se: "stor_end q = Ptr b (int (length buf))" and
    bp: "begin_ptr q = Ptr b (int i)" and
    ep: "end_ptr q = NULL \<or> (\<exists>j<length buf. end_ptr q = Ptr b (int j))"
    by (rule dq_validE)
  have b0: "0 < b" using mem_Some_bounds[OF m] by auto
  have c: "capacity q = int (length buf)" using sb se by (simp add: capacity_def ptr_diff_def)
  have f: "igraph_dqueue_full q = Some (begin_ptr q = end_ptr q)"
    using sb b0 by (simp add: igraph_dqueue_full_def)
  have s: "igraph_dqueue_size q = Some (int (length (dq_list h q)))" by (rule size_eq[OF v])
  have "(begin_ptr q = end_ptr q) = (length (dq_list h q) = length buf)"
  proof (cases "end_ptr q = NULL")
    case True
    moreover have "buf \<noteq> []" using i by auto
    ultimately show ?thesis using bp b0 by (simp add: dq_list_empty)
  next
    case False
    with ep obtain j where j: "j < length buf" and e: "end_ptr q = Ptr b (int j)" by auto
    have "dq_list h q = ring buf i j" by (rule dq_list_ring[OF m sb bp e])
    then show ?thesis using bp e i j length_ring[OF i j] by auto
  qed
  then have "igraph_dqueue_full q = Some (igraph_dqueue_size q = Some (capacity q))"
    using f s c by simp
  moreover have "igraph_dqueue_empty q = Some True \<longrightarrow> igraph_dqueue_full q = Some False"
    using f bp b0 by (auto simp: igraph_dqueue_empty_def split: if_splits)
  ultimately show ?thesis by simp
qed

theorem full_iff_size_is_capacity_witness:
  "igraph_dqueue_full \<lparr>begin_ptr = Ptr 1 1, end_ptr = Ptr 1 1, stor_begin = Ptr 1 0,
                       stor_end = Ptr 1 3\<rparr> = Some True \<and>
   igraph_dqueue_size \<lparr>begin_ptr = Ptr 1 1, end_ptr = Ptr 1 1, stor_begin = Ptr 1 0,
                       stor_end = Ptr 1 3\<rparr> = Some 3 \<and>
   igraph_dqueue_full \<lparr>begin_ptr = Ptr 1 1, end_ptr = NULL, stor_begin = Ptr 1 0,
                       stor_end = Ptr 1 3\<rparr> = Some False"
proof -
  let ?h = "[Some [4, 2, 3::int]]"
  let ?q = "\<lparr>begin_ptr = Ptr 1 1, end_ptr = Ptr 1 1, stor_begin = Ptr 1 0, stor_end = Ptr 1 3\<rparr>"
  let ?e = "\<lparr>begin_ptr = Ptr 1 1, end_ptr = NULL, stor_begin = Ptr 1 0, stor_end = Ptr 1 3\<rparr>"
  have v: "dq_valid ?h ?q" and w: "dq_valid ?h ?e" by code_simp+
  have s: "igraph_dqueue_size ?q = Some 3" and c: "capacity ?q = 3"
    and e: "igraph_dqueue_empty ?e = Some True" by code_simp+
  from full_iff_size_is_capacity[OF v] s c have "igraph_dqueue_full ?q = Some True" by simp
  moreover from full_iff_size_is_capacity[OF w] e have "igraph_dqueue_full ?e = Some False"
    by blast
  ultimately show ?thesis using s by blast
qed

text \<open>
  C7. After a successful \<^verbatim>\<open>igraph_dqueue_init\<close> and \<open>n\<close> successful pushes, \<open>n\<close> calls of
  \<^verbatim>\<open>igraph_dqueue_pop_back\<close> return the elements in the reverse of the order they were
  pushed, and the deque is empty afterwards. This includes the states where \<open>end\<close> stands at
  the start of the storage and \<^verbatim>\<open>igraph_dqueue_pop_back\<close> moves it to the last slot.
\<close>

theorem lifo_push_pop_back:
  assumes init: "igraph_dqueue_init ok q0 c h0 = (IGRAPH_SUCCESS, q, h)"
  shows "(list_all fst oes \<longrightarrow> push_all q oes h \<noteq> None) \<and>
         (\<forall>q' h'. push_all q oes h = Some (q', h') \<longrightarrow>
            (\<exists>q''. pop_back_n (length oes) q' h' = Some (rev (map snd oes), q'') \<and>
                   igraph_dqueue_empty q'' = Some True))"
proof (intro conjI impI allI)
  from init_valid[OF init] have v: "dq_valid h q" and e: "end_ptr q = NULL" by simp_all
  {
    assume "list_all fst oes"
    from push_all_total[OF v this] show "push_all q oes h \<noteq> None" by auto
  }
  fix q' h'
  assume p: "push_all q oes h = Some (q', h')"
  from push_all_list[OF v p] e have v': "dq_valid h' q'" and l: "dq_list h' q' = map snd oes"
    by (simp_all add: dq_list_empty)
  from pop_back_n_list[OF v'] obtain q'' where
    r: "pop_back_n (length (dq_list h' q')) q' h' = Some (rev (dq_list h' q'), q'')" and
    v'': "dq_valid h' q''" and e'': "end_ptr q'' = NULL" by blast
  have "igraph_dqueue_empty q'' = Some True"
    using empty_eq[OF v''] e'' by (simp add: dq_list_empty)
  with r l show "\<exists>q''. pop_back_n (length oes) q' h' = Some (rev (map snd oes), q'') \<and>
      igraph_dqueue_empty q'' = Some True" by auto
qed

theorem lifo_push_pop_back_witness:
  "push_all \<lparr>begin_ptr = Ptr 1 0, end_ptr = NULL, stor_begin = Ptr 1 0, stor_end = Ptr 1 3\<rparr>
      [(True, 1), (True, 2), (True, 3)] [Some [0, 0, 0::int]] \<noteq> None \<and>
   (\<exists>q''. pop_back_n 3 \<lparr>begin_ptr = Ptr 1 0, end_ptr = Ptr 1 0, stor_begin = Ptr 1 0,
                         stor_end = Ptr 1 3\<rparr>
             [Some [1, 2, 3::int]] = Some ([3, 2, 1], q'') \<and>
          igraph_dqueue_empty q'' = Some True)"
proof -
  let ?q = "\<lparr>begin_ptr = Ptr 1 0, end_ptr = NULL, stor_begin = Ptr 1 0, stor_end = Ptr 1 3\<rparr>"
  let ?oes = "[(True, 1), (True, 2), (True, 3::int)]"
  let ?q' = "\<lparr>begin_ptr = Ptr 1 0, end_ptr = Ptr 1 0, stor_begin = Ptr 1 0, stor_end = Ptr 1 3\<rparr>"
  let ?h' = "[Some [1, 2, 3::int]]"
  have i: "igraph_dqueue_init True dq_uninit 3 ([]::int heap) =
      (IGRAPH_SUCCESS, ?q, [Some [0, 0, 0]])"
    by code_simp
  have p: "push_all ?q ?oes [Some [0, 0, 0]] = Some (?q', ?h')"
    by code_simp
  have a: "list_all fst ?oes" by simp
  have n: "length ?oes = 3" and m: "rev (map snd ?oes) = [3, 2, 1]" by simp_all
  note t = lifo_push_pop_back[OF i, of ?oes]
  from t a have "push_all ?q ?oes [Some [0, 0, 0]] \<noteq> None" by blast
  moreover from t p have "\<exists>q''. pop_back_n (length ?oes) ?q' ?h' = Some (rev (map snd ?oes), q'') \<and>
      igraph_dqueue_empty q'' = Some True" by blast
  ultimately show ?thesis unfolding n m by blast
qed

text \<open>
  C8. \<^verbatim>\<open>igraph_dqueue_init\<close> with a requested size \<open>c \<le> 0\<close>, when its allocation succeeds,
  returns success with a deque of exactly one (zeroed) slot that is empty and of size 0.
\<close>

theorem init_nonpositive_capacity:
  assumes "c \<le> 0"
  shows "\<exists>q h. igraph_dqueue_init True q0 c h0 = (IGRAPH_SUCCESS, q, h) \<and>
           dq_valid h q \<and> capacity q = 1 \<and>
           mem h (block (stor_begin q)) = Some [0] \<and>
           igraph_dqueue_empty q = Some True \<and> igraph_dqueue_size q = Some 0"
proof -
  obtain r q h where i: "igraph_dqueue_init True q0 c h0 = (r, q, h)"
    by (cases "igraph_dqueue_init True q0 c (h0::'a heap)") auto
  with init_ok[of q0 c h0] assms have r: "r = IGRAPH_SUCCESS"
    and sb: "stor_begin q = Ptr (Suc (length h0)) 0"
    and h: "h = h0 @ [Some [0]]" by auto
  from i r have i': "igraph_dqueue_init True q0 c h0 = (IGRAPH_SUCCESS, q, h)" by simp
  from init_valid[OF i'] assms have v: "dq_valid h q" and e: "end_ptr q = NULL"
    and c: "capacity q = 1" by simp_all
  have m: "mem h (block (stor_begin q)) = Some [0]" using sb h by (simp add: mem_append)
  have "igraph_dqueue_empty q = Some True"
    using empty_eq[OF v] e by (simp add: dq_list_empty)
  moreover have "igraph_dqueue_size q = Some 0"
    using size_eq[OF v] e by (simp add: dq_list_empty)
  ultimately show ?thesis using i' v c m by blast
qed

theorem init_nonpositive_capacity_witness:
  "\<exists>q h. igraph_dqueue_init True dq_uninit 0 ([]::int heap) = (IGRAPH_SUCCESS, q, h) \<and>
         dq_valid h q \<and> capacity q = 1 \<and>
         mem h (block (stor_begin q)) = Some [0] \<and>
         igraph_dqueue_empty q = Some True \<and> igraph_dqueue_size q = Some 0"
  using init_nonpositive_capacity[of 0 dq_uninit "[]::int heap"] by simp

text \<open>
  C9. On a valid deque that is not full, \<^verbatim>\<open>igraph_dqueue_push\<close> returns success whether or
  not an allocation would succeed, and it leaves the storage pointers, the capacity and the
  heap's blocks (which are live, and their sizes) as they were: only the branch for the full
  deque allocates.
\<close>

theorem push_not_full_never_allocates:
  assumes "dq_valid h q" and "begin_ptr q \<noteq> end_ptr q"
  shows "\<exists>q' h'. igraph_dqueue_push ok q e h = Some (IGRAPH_SUCCESS, q', h') \<and>
           stor_begin q' = stor_begin q \<and> stor_end q' = stor_end q \<and>
           capacity q' = capacity q \<and>
           map (map_option length) h' = map (map_option length) h"
proof -
  from push_not_full[OF assms, of ok e] obtain q' h' where
    "igraph_dqueue_push ok q e h = Some (IGRAPH_SUCCESS, q', h')"
    "stor_begin q' = stor_begin q" "stor_end q' = stor_end q"
    "map (map_option length) h' = map (map_option length) h" by blast
  then show ?thesis by (auto simp: capacity_def)
qed

theorem push_not_full_never_allocates_witness:
  "\<exists>q' h'. igraph_dqueue_push False
              \<lparr>begin_ptr = Ptr 1 2, end_ptr = Ptr 1 1, stor_begin = Ptr 1 0,
                stor_end = Ptr 1 3\<rparr> 9 [Some [4, 2, 3::int]] = Some (IGRAPH_SUCCESS, q', h') \<and>
          stor_begin q' = Ptr 1 0 \<and> stor_end q' = Ptr 1 3 \<and> capacity q' = 3 \<and>
          map (map_option length) h' = [Some 3]"
proof -
  let ?h = "[Some [4, 2, 3::int]]"
  let ?q = "\<lparr>begin_ptr = Ptr 1 2, end_ptr = Ptr 1 1, stor_begin = Ptr 1 0, stor_end = Ptr 1 3\<rparr>"
  have v: "dq_valid ?h ?q" by code_simp
  have n: "begin_ptr ?q \<noteq> end_ptr ?q" by simp
  have c: "capacity ?q = 3" by code_simp
  from push_not_full_never_allocates[OF v n, of False 9] c show ?thesis
    by (simp add: numeral_3_eq_3)
qed

text \<open>
  C10. On every valid deque, empty, partly filled or full, a push that returns success
  leaves the deque non-empty, with \<^verbatim>\<open>igraph_dqueue_back\<close> returning the pushed element and
  \<^verbatim>\<open>igraph_dqueue_size\<close> one more than before. Such a push exists: the push succeeds when
  its allocation does.
\<close>

theorem push_then_back_and_size:
  assumes v: "dq_valid h q"
  shows "(\<exists>q' h'. igraph_dqueue_push True q e h = Some (IGRAPH_SUCCESS, q', h')) \<and>
         (\<forall>ok q' h'. igraph_dqueue_push ok q e h = Some (IGRAPH_SUCCESS, q', h') \<longrightarrow>
            igraph_dqueue_empty q' = Some False \<and>
            igraph_dqueue_back q' h' = Some e \<and>
            (\<exists>n. igraph_dqueue_size q = Some n \<and> igraph_dqueue_size q' = Some (n + 1)))"
proof (intro conjI allI impI)
  show "\<exists>q' h'. igraph_dqueue_push True q e h = Some (IGRAPH_SUCCESS, q', h')"
    by (rule push_total[OF v])
next
  fix ok q' h'
  assume r: "igraph_dqueue_push ok q e h = Some (IGRAPH_SUCCESS, q', h')"
  from push_success[OF v r] have v': "dq_valid h' q'"
    and l: "dq_list h' q' = dq_list h q @ [e]" by simp_all
  from l have ne: "end_ptr q' \<noteq> NULL" using dq_list_empty[of q' h'] by auto
  show "igraph_dqueue_empty q' = Some False"
    using empty_eq[OF v'] l by simp
  show "igraph_dqueue_back q' h' = Some e"
    using back_eq[OF v' ne] l by simp
  show "\<exists>n. igraph_dqueue_size q = Some n \<and> igraph_dqueue_size q' = Some (n + 1)"
    using size_eq[OF v] size_eq[OF v'] l by simp
qed

theorem push_then_back_and_size_witness:
  "igraph_dqueue_empty \<lparr>begin_ptr = Ptr 2 0, end_ptr = Ptr 2 4, stor_begin = Ptr 2 0,
                        stor_end = Ptr 2 7\<rparr> = Some False \<and>
   igraph_dqueue_back \<lparr>begin_ptr = Ptr 2 0, end_ptr = Ptr 2 4, stor_begin = Ptr 2 0,
                       stor_end = Ptr 2 7\<rparr> [None, Some [2, 3, 4, 9, 0, 0, 0::int]] = Some 9 \<and>
   (\<exists>n. igraph_dqueue_size \<lparr>begin_ptr = Ptr 1 1, end_ptr = Ptr 1 1, stor_begin = Ptr 1 0,
                             stor_end = Ptr 1 3\<rparr> = Some n \<and>
        igraph_dqueue_size \<lparr>begin_ptr = Ptr 2 0, end_ptr = Ptr 2 4, stor_begin = Ptr 2 0,
                             stor_end = Ptr 2 7\<rparr> = Some (n + 1))"
proof -
  let ?h = "[Some [4, 2, 3::int]]"
  let ?q = "\<lparr>begin_ptr = Ptr 1 1, end_ptr = Ptr 1 1, stor_begin = Ptr 1 0, stor_end = Ptr 1 3\<rparr>"
  let ?h' = "[None, Some [2, 3, 4, 9, 0, 0, 0::int]]"
  let ?q' = "\<lparr>begin_ptr = Ptr 2 0, end_ptr = Ptr 2 4, stor_begin = Ptr 2 0, stor_end = Ptr 2 7\<rparr>"
  have v: "dq_valid ?h ?q" by code_simp
  have p: "igraph_dqueue_push True ?q 9 ?h = Some (IGRAPH_SUCCESS, ?q', ?h')" by code_simp
  from push_then_back_and_size[OF v, of 9] p show ?thesis by blast
qed

section \<open>More on indexed access\<close>

text \<open>
  What \<^verbatim>\<open>igraph_dqueue_e\<close> does return on valid states. For an index in range: the
  element at that logical position when the live range is not wrapped, or the index lies in
  the segment from \<open>begin\<close> to the physical end, or it is smaller than the offset of
  \<open>end\<close>; and 0 for the other indices of a wrapped range.
\<close>

theorem e_in_range:
  assumes v: "dq_valid h q" and i0: "0 \<le> idx" and lt: "idx < int (length (dq_list h q))"
  shows "igraph_dqueue_e q h idx =
           Some (if ptr_less (begin_ptr q) (end_ptr q) \<or>
                    idx < ptr_diff (stor_end q) (begin_ptr q) \<or>
                    idx < ptr_diff (end_ptr q) (stor_begin q)
                 then dq_list h q ! nat idx else 0)"
proof -
  from lt i0 have "dq_list h q \<noteq> []" by auto
  then have ne: "end_ptr q \<noteq> NULL" using dq_list_empty by blast
  from v ne obtain b buf i j where
    m: "mem h b = Some buf" and i: "i < length buf" and
    sb: "stor_begin q = Ptr b 0" and se: "stor_end q = Ptr b (int (length buf))" and
    bp: "begin_ptr q = Ptr b (int i)" and j: "j < length buf" and
    ep: "end_ptr q = Ptr b (int j)"
    by (auto elim!: dq_validE)
  obtain k where k: "idx = int k" using i0 by (metis nonneg_int_cases)
  have l: "dq_list h q = ring buf i j" by (rule dq_list_ring[OF m sb bp ep])
  have kl: "k < length (ring buf i j)" using lt k l by simp
  show ?thesis
  proof (cases "i < j")
    case True
    then have kk: "k < j - i" using kl length_ring[OF i j] by simp
    then have "ring buf i j ! k = buf ! (i + k)" using True i j by (simp add: ring_def)
    moreover have "int i + int k < int j" "int i + int k < int (length buf)"
      "nat (int i + int k) = i + k" using kk j by simp_all
    then have "igraph_dqueue_e q h idx = Some (buf ! (i + k))"
      using m sb se bp ep k
      by (simp add: igraph_dqueue_e_def ptr_less_def ptr_add_def load_def)
    ultimately show ?thesis using True bp ep l k by (simp add: ptr_less_def)
  next
    case False
    then have kk: "k < length buf - i + j" using kl length_ring[OF i j] by simp
    have nl: "\<not> ptr_less (begin_ptr q) (end_ptr q)" using False bp ep by (simp add: ptr_less_def)
    have d1: "ptr_diff (stor_end q) (begin_ptr q) = int (length buf - i)"
      using se bp i by (simp add: ptr_diff_def)
    have d2: "ptr_diff (end_ptr q) (stor_begin q) = int j"
      using sb ep by (simp add: ptr_diff_def)
    show ?thesis
    proof (cases "k < length buf - i")
      case True
      then have "ring buf i j ! k = buf ! (i + k)" using False i by (simp add: ring_def nth_append)
      moreover have "\<not> int i + int k < int j" "int i + int k < int (length buf)"
        "nat (int i + int k) = i + k" "\<not> int i < int j" using True False by simp_all
      then have "igraph_dqueue_e q h idx = Some (buf ! (i + k))"
        using m sb se bp ep k
        by (simp add: igraph_dqueue_e_def ptr_less_def ptr_ge_def ptr_add_def load_def)
      moreover have "idx < ptr_diff (stor_end q) (begin_ptr q)"
        unfolding d1 k using True by (simp only: of_nat_less_iff)
      ultimately show ?thesis using l k by simp
    next
      case far: False
      show ?thesis
      proof (cases "k < j")
        case True
        have "ring buf i j ! k = buf ! (k - (length buf - i))"
          using far False True i j by (simp add: ring_def nth_append)
        moreover have "igraph_dqueue_e q h idx = Some (buf ! (k - (length buf - i)))"
        proof -
          define r where "r = k - (length buf - i)"
          have r: "r < length buf" using True j by (simp add: r_def)
          have c1: "\<not> ptr_less (ptr_add (begin_ptr q) idx) (end_ptr q)"
            using bp ep k \<open>\<not> i < j\<close> by (simp add: ptr_less_def ptr_add_def)
          have c2: "\<not> ptr_less (ptr_add (begin_ptr q) idx) (stor_end q)"
            using bp se k far by (simp add: ptr_less_def ptr_add_def)
          have c3: "ptr_ge (begin_ptr q) (end_ptr q)"
            using nl by (simp add: ptr_ge_def)
          have c4: "ptr_less (ptr_add (stor_begin q) idx) (end_ptr q)"
            using sb ep k True by (simp add: ptr_less_def ptr_add_def)
          have "idx - int (length buf - i) = int r"
            unfolding k r_def using far by simp
          then have c5: "ptr_add (stor_begin q) (idx - ptr_diff (stor_end q) (begin_ptr q)) =
              Ptr b (int r)"
            using sb d1 by (simp add: ptr_add_def)
          have "load h (Ptr b (int r)) = Some (buf ! r)"
            using m r by (simp add: load_def)
          then show ?thesis
            by (simp add: igraph_dqueue_e_def c1 c2 c3 c4 c5 Let_def r_def)
        qed
        moreover have "idx < ptr_diff (end_ptr q) (stor_begin q)"
          unfolding d2 k using True by (simp only: of_nat_less_iff)
        ultimately show ?thesis using l k by simp
      next
        case False
        have "\<not> int i + int k < int j" "\<not> int i + int k < int (length buf)"
          "\<not> int i < int j" "\<not> int k < int j"
          using far False \<open>\<not> i < j\<close> by simp_all
        then have "igraph_dqueue_e q h idx = Some 0"
          using sb se bp ep k
          by (simp add: igraph_dqueue_e_def ptr_less_def ptr_ge_def ptr_add_def)
        moreover have "\<not> idx < ptr_diff (stor_end q) (begin_ptr q)"
          unfolding d1 k using far by (simp only: of_nat_less_iff not_False_eq_True)
        moreover have "\<not> idx < ptr_diff (end_ptr q) (stor_begin q)"
          unfolding d2 k using False by (simp only: of_nat_less_iff not_False_eq_True)
        ultimately show ?thesis using nl by simp
      qed
    qed
  qed
qed

theorem e_in_range_witness:
  "igraph_dqueue_e
     \<lparr>begin_ptr = Ptr 1 4, end_ptr = Ptr 1 3, stor_begin = Ptr 1 0, stor_end = Ptr 1 5\<rparr>
     [Some [11, 12, 13, 0, 10::int]] 1 = Some 11 \<and>
   igraph_dqueue_e
     \<lparr>begin_ptr = Ptr 1 4, end_ptr = Ptr 1 3, stor_begin = Ptr 1 0, stor_end = Ptr 1 5\<rparr>
     [Some [11, 12, 13, 0, 10::int]] 3 = Some 0"
proof -
  let ?h = "[Some [11, 12, 13, 0, 10::int]]"
  let ?q = "\<lparr>begin_ptr = Ptr 1 4, end_ptr = Ptr 1 3, stor_begin = Ptr 1 0, stor_end = Ptr 1 5\<rparr>"
  have v: "dq_valid ?h ?q" by code_simp
  have l: "dq_list ?h ?q = [10, 11, 12, 13]" by code_simp
  have c: "\<not> ptr_less (begin_ptr ?q) (end_ptr ?q)"
    "ptr_diff (stor_end ?q) (begin_ptr ?q) = 1" "ptr_diff (end_ptr ?q) (stor_begin ?q) = 3"
    by code_simp+
  have "igraph_dqueue_e ?q ?h 1 = Some 11"
    using e_in_range[OF v, of 1] by (simp only: l c) simp
  moreover have "igraph_dqueue_e ?q ?h 3 = Some 0"
    using e_in_range[OF v, of 3] by (simp only: l c) simp
  ultimately show ?thesis by blast
qed

text \<open>For an index at or beyond the size of a deque that is not empty: 0.\<close>

theorem e_out_of_range_nonempty:
  assumes v: "dq_valid h q" and ne: "end_ptr q \<noteq> NULL"
    and ge: "int (length (dq_list h q)) \<le> idx"
  shows "igraph_dqueue_e q h idx = Some 0"
proof -
  from v ne obtain b buf i j where
    m: "mem h b = Some buf" and i: "i < length buf" and
    sb: "stor_begin q = Ptr b 0" and se: "stor_end q = Ptr b (int (length buf))" and
    bp: "begin_ptr q = Ptr b (int i)" and j: "j < length buf" and
    ep: "end_ptr q = Ptr b (int j)"
    by (auto elim!: dq_validE)
  have l: "dq_list h q = ring buf i j" by (rule dq_list_ring[OF m sb bp ep])
  show ?thesis
  proof (cases "i < j")
    case True
    then have "int j - int i \<le> idx" using ge l length_ring[OF i j] by simp
    then show ?thesis
      using True sb se bp ep
      by (simp add: igraph_dqueue_e_def ptr_less_def ptr_ge_def ptr_add_def)
  next
    case False
    then have "int (length buf) - int i + int j \<le> idx"
      using ge l length_ring[OF i j] i by simp
    then show ?thesis
      using False i j sb se bp ep
      by (simp add: igraph_dqueue_e_def ptr_less_def ptr_ge_def ptr_add_def)
  qed
qed

theorem e_out_of_range_nonempty_witness:
  "igraph_dqueue_e
     \<lparr>begin_ptr = Ptr 1 4, end_ptr = Ptr 1 3, stor_begin = Ptr 1 0, stor_end = Ptr 1 5\<rparr>
     [Some [11, 12, 13, 0, 10::int]] 4 = Some 0"
proof -
  let ?h = "[Some [11, 12, 13, 0, 10::int]]"
  let ?q = "\<lparr>begin_ptr = Ptr 1 4, end_ptr = Ptr 1 3, stor_begin = Ptr 1 0, stor_end = Ptr 1 5\<rparr>"
  have v: "dq_valid ?h ?q" by code_simp
  have l: "dq_list ?h ?q = [10, 11, 12, 13]" by code_simp
  have n: "end_ptr ?q \<noteq> NULL" by simp
  have g: "int (length (dq_list ?h ?q)) \<le> 4" by (simp only: l) simp
  show ?thesis by (rule e_out_of_range_nonempty[OF v n g])
qed

text \<open>
  On an empty deque: the slot \<open>idx\<close> places after \<open>begin\<close>, whatever it holds, when
  that slot lies in the storage, and 0 otherwise.
\<close>

theorem e_on_empty:
  assumes v: "dq_valid h q" and em: "end_ptr q = NULL" and i0: "0 \<le> idx"
  shows "igraph_dqueue_e q h idx =
           (if idx < ptr_diff (stor_end q) (begin_ptr q)
            then load h (ptr_add (begin_ptr q) idx) else Some 0)"
proof -
  from v obtain b buf i where
    m: "mem h b = Some buf" and i: "i < length buf" and
    sb: "stor_begin q = Ptr b 0" and se: "stor_end q = Ptr b (int (length buf))" and
    bp: "begin_ptr q = Ptr b (int i)"
    by (rule dq_validE)
  have b0: "0 < b" using mem_Some_bounds[OF m] by simp
  show ?thesis
    using b0 sb se bp em i0
    by (auto simp: igraph_dqueue_e_def ptr_less_def ptr_ge_def ptr_add_def ptr_diff_def NULL_def)
qed

theorem e_on_empty_witness:
  "igraph_dqueue_e
     \<lparr>begin_ptr = Ptr 1 0, end_ptr = NULL, stor_begin = Ptr 1 0, stor_end = Ptr 1 1\<rparr>
     [Some [7::int]] 0 = Some 7 \<and>
   igraph_dqueue_e
     \<lparr>begin_ptr = Ptr 1 0, end_ptr = NULL, stor_begin = Ptr 1 0, stor_end = Ptr 1 1\<rparr>
     [Some [7::int]] 1 = Some 0"
proof -
  let ?h = "[Some [7::int]]"
  let ?q = "\<lparr>begin_ptr = Ptr 1 0, end_ptr = NULL, stor_begin = Ptr 1 0, stor_end = Ptr 1 1\<rparr>"
  have v: "dq_valid ?h ?q" by code_simp
  have n: "end_ptr ?q = NULL" by simp
  have c: "ptr_diff (stor_end ?q) (begin_ptr ?q) = 1" by code_simp
  have ld: "load ?h (ptr_add (begin_ptr ?q) 0) = Some 7" by code_simp
  have "igraph_dqueue_e ?q ?h 0 = Some 7"
    using e_on_empty[OF v n, of 0] by (simp only: c ld) simp
  moreover have "igraph_dqueue_e ?q ?h 1 = Some 0"
    using e_on_empty[OF v n, of 1] by (simp only: c) simp
  ultimately show ?thesis by blast
qed

end
